theory Spec2Isabelle
  imports Complex_Main "HOL-Library.Sublist"
begin

section \<open>Crowd detection service: data model\<close>

text \<open>
  The development embeds \<^verbatim>\<open>detection_service.py\<close> (class \<^verbatim>\<open>DetectionService\<close>).
  OpenCV, the YOLO model, the file system and the ffmpeg subprocess are external; each is a
  parameter of the model (a field of an environment record) whose possible answers,
  including raised exceptions, are values.

  Numbers: Python's \<^verbatim>\<open>int\<close> is \<open>int\<close> or \<open>nat\<close> (counters that start at 0 and only
  grow). Python's \<^verbatim>\<open>float\<close> is an IEEE 754 double: a value of type \<open>real\<close> that
  is the result of an operation rounded to the nearest double (\<open>round_double\<close> below),
  as the interpreter computes it.
\<close>

datatype py_exc =
    ValueError string
  | ZeroDivisionError
  | ImportError
  | TimeoutExpired
  | UnboundLocalError
  | ExternalError string \<comment> \<open>any other exception raised inside an external call\<close>

text \<open>A frame is a numpy array: \<^verbatim>\<open>shape[0]\<close> rows, \<^verbatim>\<open>shape[1]\<close> columns, and its pixels.\<close>

record frame =
  rows :: nat
  cols :: nat
  pixels :: nat

text \<open>One box of a YOLO result: \<^verbatim>\<open>box.xyxy[0]\<close>, \<^verbatim>\<open>box.conf[0]\<close>, \<^verbatim>\<open>box.cls[0]\<close>.\<close>

record box =
  bx1 :: real
  by1 :: real
  bx2 :: real
  by2 :: real
  bconf :: real
  bcls :: real

text \<open>The dictionaries appended to \<^verbatim>\<open>detections\<close>; \<^verbatim>\<open>class_id\<close> is only set by
  \<^verbatim>\<open>detect_persons\<close>.\<close>

record detection =
  bbox :: "real list"
  confidence :: real
  class_id :: "int option"

type_synonym rect = "int \<times> int \<times> int \<times> int"

text \<open>An image as OpenCV sees it after drawing: the frame it was copied from, the
  rectangles drawn by \<^verbatim>\<open>cv2.rectangle\<close> and the labels drawn by \<^verbatim>\<open>cv2.putText\<close>
  (confidence shown, x, y), in drawing order.\<close>

record annotated =
  base :: frame
  rects :: "rect list"
  labels :: "(real \<times> int \<times> int) list"

text \<open>The dictionary returned by \<^verbatim>\<open>detect_persons\<close> and \<^verbatim>\<open>process_video_frame\<close>; a key
  that is absent from the Python dictionary is \<open>None\<close>. \<^verbatim>\<open>process_video\<close> adds
  \<^verbatim>\<open>frame_number\<close> and \<^verbatim>\<open>timestamp\<close>.\<close>

record result_dict =
  person_count :: nat
  density_percentage :: real
  detections :: "detection list"
  annotated_frame :: "annotated option"
  image_shape :: "(nat \<times> nat) option"
  error :: "py_exc option"
  frame_number :: "nat option"
  timestamp :: "real option"

section \<open>Numeric helpers of the Python runtime\<close>

text \<open>\<^verbatim>\<open>int(x)\<close> on a float truncates towards zero.\<close>

definition py_int :: "real \<Rightarrow> int" where
  "py_int x = (if 0 \<le> x then \<lfloor>x\<rfloor> else \<lceil>x\<rceil>)"

subsection \<open>Double precision\<close>

text \<open>The integer nearest to \<open>y\<close>, a tie going to the even one.\<close>

definition rne :: "real \<Rightarrow> int" where
  "rne y =
     (let f = \<lfloor>y\<rfloor>; d = y - of_int f
      in if d < 1 / 2 then f
         else if 1 / 2 < d then f + 1
         else if even f then f else f + 1)"

text \<open>The binary exponent of a positive number: \<open>binade x\<close> is the integer \<open>k\<close> with
  \<open>2 ^ k \<le> x < 2 ^ (k + 1)\<close>. For \<open>x\<close> of at least 1 it is found by halving.\<close>

function up :: "real \<Rightarrow> nat" where
  "up x = (if x < 2 then 0 else Suc (up (x / 2)))"
  by pat_completeness auto
termination
proof (relation "measure (\<lambda>x. nat \<lfloor>x\<rfloor>)")
  show "wf (measure (\<lambda>x. nat \<lfloor>x\<rfloor>))" by simp
next
  fix x :: real
  assume "\<not> x < 2"
  then have "x / 2 \<le> x - 1" by simp
  then have "\<lfloor>x / 2\<rfloor> \<le> \<lfloor>x - 1\<rfloor>" by (rule floor_mono)
  moreover have "2 \<le> \<lfloor>x\<rfloor>" using \<open>\<not> x < 2\<close> by (simp add: le_floor_iff)
  ultimately show "(x / 2, x) \<in> measure (\<lambda>x. nat \<lfloor>x\<rfloor>)"
    by simp
qed

declare up.simps [simp del]

definition binade :: "real \<Rightarrow> int" where
  "binade x =
     (if 1 \<le> x then int (up x)
      else (let k = up (1 / x) in if x * 2 ^ k = 1 then - int k else - int (Suc k)))"

text \<open>
  The double nearest to \<open>x\<close>, a tie going to the one whose significand is even: a
  double in the binade of \<open>x\<close> is a multiple of \<open>2 ^ (binade x - 52)\<close> (53 significant
  bits). This is the rounding of every float operation of the interpreter and of the
  conversion of a decimal numeral. Exponents are not bounded here: the numbers of this
  program come from list lengths (below \<open>2 ^ 63\<close>), pixel areas and frame counters, and
  every quotient, product and sum formed from them lies in the range where a double has
  its full 53 bits.
\<close>

definition round_double :: "real \<Rightarrow> real" where
  "round_double x =
     (let u = 2 powi (binade \<bar>x\<bar> - 52) in of_int (rne (x / u)) * u)"

text \<open>\<^verbatim>\<open>a / b\<close> on two \<^verbatim>\<open>int\<close>s with \<open>b\<close> not 0 (the quotient, rounded once), and
  \<^verbatim>\<open>x * y\<close>, \<^verbatim>\<open>x / y\<close> on floats.\<close>

definition int_truediv :: "int \<Rightarrow> int \<Rightarrow> real" where
  "int_truediv a b = round_double (of_int a / of_int b)"

definition float_mul :: "real \<Rightarrow> real \<Rightarrow> real" where
  "float_mul x y = round_double (x * y)"

definition float_div :: "real \<Rightarrow> real \<Rightarrow> real" where
  "float_div x y = round_double (x / y)"

text \<open>\<^verbatim>\<open>round(x, 2)\<close> on a float: the multiple of 1/100 nearest to the exact value of
  \<open>x\<close>, a tie going to the even one, and then the double nearest to that decimal.\<close>

definition py_round2 :: "real \<Rightarrow> real" where
  "py_round2 x = round_double (of_int (rne (x * 100)) / 100)"

text \<open>Adding floats from the left, starting at 0, every partial sum rounded.\<close>

fun sum_from :: "real \<Rightarrow> real list \<Rightarrow> real" where
  "sum_from s [] = s"
| "sum_from s (x # xs) = sum_from (round_double (s + x)) xs"

definition left_sum :: "real list \<Rightarrow> real" where
  "left_sum xs = sum_from 0 xs"

section \<open>Single-frame detection\<close>

definition error_dict :: "py_exc \<Rightarrow> result_dict" where
  "error_dict e =
     \<lparr>person_count = 0, density_percentage = 0, detections = [],
      annotated_frame = None, image_shape = None, error = Some e,
      frame_number = None, timestamp = None\<rparr>"

text \<open>Lines 82-86 and 144-146: \<^verbatim>\<open>min(100.0, (estimated_person_area / area) * 100)\<close> with
  \<^verbatim>\<open>estimated_person_area = person_count * 7500\<close>; the true division of the two \<^verbatim>\<open>int\<close>s
  raises on a zero area.\<close>

definition density_of :: "nat \<Rightarrow> nat \<Rightarrow> py_exc + real" where
  "density_of count area =
     (let estimated_person_area = count * 7500
      in if area = 0 then Inl ZeroDivisionError
         else Inr (min 100
                (float_mul (int_truediv (int estimated_person_area) (int area)) 100)))"

definition rect_of_box :: "box \<Rightarrow> rect" where
  "rect_of_box b = (py_int (bx1 b), py_int (by1 b), py_int (bx2 b), py_int (by2 b))"

definition label_of_box :: "box \<Rightarrow> real \<times> int \<times> int" where
  "label_of_box b = (bconf b, py_int (bx1 b), py_int (by1 b) - 10)"

text \<open>\<^verbatim>\<open>for result in results\<close>: \<^verbatim>\<open>person_count\<close> is overwritten by every result, so it
  is the size of the last one; the detections of all results accumulate.\<close>

definition count_of :: "box list list \<Rightarrow> nat" where
  "count_of results = (if results = [] then 0 else length (last results))"

definition process_video_frame ::
  "(frame \<Rightarrow> real \<Rightarrow> py_exc + box list list) \<Rightarrow> frame \<Rightarrow> real \<Rightarrow> result_dict" where
  "process_video_frame model fr conf =
     (case model fr conf of
        Inl e \<Rightarrow> error_dict e
      | Inr results \<Rightarrow>
          (let boxes = concat results;
               frame_area = rows fr * cols fr
           in case density_of (count_of results) frame_area of
                Inl e \<Rightarrow> error_dict e
              | Inr density \<Rightarrow>
                  \<lparr>person_count = count_of results,
                   density_percentage = py_round2 density,
                   detections =
                     map (\<lambda>b. \<lparr>bbox = [bx1 b, by1 b, bx2 b, by2 b], confidence = bconf b,
                                class_id = None\<rparr>) boxes,
                   annotated_frame =
                     Some \<lparr>base = fr, rects = map rect_of_box boxes, labels = []\<rparr>,
                   image_shape = None, error = None,
                   frame_number = None, timestamp = None\<rparr>))"

text \<open>\<^verbatim>\<open>detect_persons\<close>: \<^verbatim>\<open>cv2.imread\<close> answers \<open>None\<close> for an unreadable file.\<close>

definition detect_persons ::
  "(string \<Rightarrow> frame option) \<Rightarrow> (frame \<Rightarrow> real \<Rightarrow> py_exc + box list list) \<Rightarrow>
   string \<Rightarrow> real \<Rightarrow> result_dict" where
  "detect_persons imread model image_path conf =
     (case imread image_path of
        None \<Rightarrow> error_dict (ValueError (''Could not read image from '' @ image_path))
      | Some img \<Rightarrow>
          (case model img conf of
             Inl e \<Rightarrow> error_dict e
           | Inr results \<Rightarrow>
               (let boxes = concat results;
                    image_area = rows img * cols img
                in case density_of (count_of results) image_area of
                     Inl e \<Rightarrow> error_dict e
                   | Inr density \<Rightarrow>
                       \<lparr>person_count = count_of results,
                        density_percentage = py_round2 density,
                        detections =
                          map (\<lambda>b. \<lparr>bbox = [bx1 b, by1 b, bx2 b, by2 b],
                                     confidence = bconf b,
                                     class_id = Some (py_int (bcls b))\<rparr>) boxes,
                        annotated_frame =
                          Some \<lparr>base = img, rects = map rect_of_box boxes,
                                labels = map label_of_box boxes\<rparr>,
                        image_shape = Some (rows img, cols img), error = None,
                        frame_number = None, timestamp = None\<rparr>)))"

text \<open>The density the two functions report, as a function of the reported count and the
  pixel area alone.\<close>

definition reported_density :: "nat \<Rightarrow> nat \<Rightarrow> real" where
  "reported_density count area =
     (if area = 0 then 0
      else py_round2 (min 100 (float_mul (int_truediv (int (count * 7500)) (int area)) 100)))"

section \<open>String helpers of the Python runtime\<close>

text \<open>\<^verbatim>\<open>s.replace(old, new)\<close>: every occurrence of \<open>old\<close>, found from the left and not
  overlapping, becomes \<open>new\<close>; an empty \<open>old\<close> matches before every character and at the
  end. \<^verbatim>\<open>s.endswith(t)\<close> is \<open>suffix t s\<close>.\<close>

function py_replace :: "string \<Rightarrow> string \<Rightarrow> string \<Rightarrow> string" where
  "py_replace old new [] = (if old = [] then new else [])"
| "py_replace old new (c # cs) =
     (if old = [] then new @ c # py_replace old new cs
      else if prefix old (c # cs) then new @ py_replace old new (drop (length old) (c # cs))
      else c # py_replace old new cs)"
  by pat_completeness auto
termination
  by (relation "measure (\<lambda>(old, new, s). length s)") auto

section \<open>The environment of a video job\<close>

text \<open>What \<^verbatim>\<open>cv2.VideoWriter(path, fourcc, fps, (width, height))\<close> followed by
  \<^verbatim>\<open>isOpened()\<close> can do.\<close>

datatype open_outcome = CtorRaises py_exc | NotOpened | Opened

text \<open>What \<^verbatim>\<open>subprocess.run(cmd, timeout=300)\<close> can do: raise (\<open>TimeoutExpired\<close> on a
  timeout) or return with an exit status.\<close>

datatype run_outcome = RunRaises py_exc | Exited int

text \<open>
  The external world of one call of \<^verbatim>\<open>process_video\<close>:
  \<^item> the capture: whether it opened, its four properties as \<^verbatim>\<open>int(cap.get(...))\<close> reads
    them, and the frames \<^verbatim>\<open>cap.read()\<close> delivers before it first answers \<^verbatim>\<open>ret = False\<close>;
  \<^item> the YOLO model, called with a frame and the confidence threshold;
  \<^item> the encoder: the outcome of opening a writer, and whether the k-th call of
    \<^verbatim>\<open>out.write\<close> (counted from 0) raises;
  \<^item> the files (path to size) found on disk once the writer has been released;
  \<^item> the transcoder: the exception \<^verbatim>\<open>import imageio_ffmpeg\<close> raises, if it raises one,
    the answer of \<^verbatim>\<open>get_ffmpeg_exe()\<close>, and for a command line the outcome of the run
    together with the size of the file it left at its output path, if it left one;
  \<^item> the built-in \<^verbatim>\<open>sum\<close> on a list of floats, whose rounding is not the same in all
    versions of the interpreter (\<open>left_sum\<close> up to 3.11, a compensated sum from 3.12).
\<close>

record env =
  cap_isOpened :: bool
  cap_fps :: int
  cap_width :: int
  cap_height :: int
  cap_frame_count :: int
  cap_frames :: "frame list"
  yolo :: "frame \<Rightarrow> real \<Rightarrow> py_exc + box list list"
  writer_open :: "string \<Rightarrow> string \<Rightarrow> int \<Rightarrow> int \<times> int \<Rightarrow> open_outcome"
  write_raises :: "nat \<Rightarrow> py_exc option"
  disk_after_release :: "string \<rightharpoonup> nat"
  import_imageio :: "py_exc option"
  get_ffmpeg_exe :: "py_exc + string"
  subprocess_run :: "string list \<Rightarrow> run_outcome \<times> nat option"
  float_sum :: "real list \<Rightarrow> real"

text \<open>The arguments of \<^verbatim>\<open>process_video\<close>.\<close>

record job =
  video_path :: string
  output_path :: "string option"
  frame_interval :: int
  conf_threshold :: real

text \<open>The effects of a job on the world: handles released, writers constructed
  (codec name, path), frames accepted by the writer, transcoder command lines run, files.\<close>

record world =
  cap_released :: bool
  out_released :: bool
  attempts :: "(string \<times> string) list"
  written :: "annotated list"
  ffmpeg_runs :: "string list list"
  disk :: "string \<rightharpoonup> nat"

section \<open>Codec negotiation (lines 194-234)\<close>

text \<open>\<^verbatim>\<open>cv2.VideoWriter_fourcc\<close> packs the four characters of a codec name; the code is
  kept as those four characters.\<close>

definition fourcc_options :: "(string \<times> string) list" where
  "fourcc_options =
     [(''mp4v'', ''mp4v''), (''XVID'', ''XVID''), (''MJPG'', ''MJPG''),
      (''avc1'', ''avc1''), (''H264'', ''H264'')]"

definition candidate_path :: "string \<Rightarrow> string \<Rightarrow> string" where
  "candidate_path out_path codec_name =
     (if codec_name = ''MJPG'' \<and> \<not> suffix ''.avi'' out_path
      then py_replace ''.mp4'' ''.avi'' out_path else out_path)"

text \<open>The \<^verbatim>\<open>for codec_name, fourcc in fourcc_options\<close> loop: the result is the codec used
  with the path it opened, if any, and the writers constructed so far. A candidate whose
  constructor raises or that does not report itself open is dropped (released when it was
  constructed) and the next one is tried; the first open one ends the loop.\<close>

fun negotiate ::
  "(string \<Rightarrow> string \<Rightarrow> open_outcome) \<Rightarrow> string \<Rightarrow> (string \<times> string) list \<Rightarrow>
   (string \<times> string) list \<Rightarrow> (string \<times> string) option \<times> (string \<times> string) list" where
  "negotiate opn out_path [] tried = (None, tried)"
| "negotiate opn out_path ((codec_name, fourcc) # rest) tried =
     (let temp_path = candidate_path out_path codec_name;
          tried' = tried @ [(codec_name, temp_path)]
      in case opn temp_path fourcc of
           Opened \<Rightarrow> (Some (codec_name, temp_path), tried')
         | NotOpened \<Rightarrow> negotiate opn out_path rest tried'
         | CtorRaises e \<Rightarrow> negotiate opn out_path rest tried')"

text \<open>The writer constructed for a candidate: its codec name and the path it is given.\<close>

definition attempt_of :: "string \<Rightarrow> string \<times> string \<Rightarrow> string \<times> string" where
  "attempt_of p c = (fst c, candidate_path p (fst c))"

definition no_encoder_error :: py_exc where
  "no_encoder_error =
     ValueError (''Could not initialize video writer with any codec. '' @
                 ''Please ensure OpenCV is properly installed.'')"

text \<open>\<^verbatim>\<open>if output_path:\<close> holds for a non-empty string only. The result is the exception
  raised, or whether a writer is open together with the updated \<^verbatim>\<open>output_path\<close>.\<close>

definition open_out ::
  "env \<Rightarrow> job \<Rightarrow> (py_exc + bool \<times> string option) \<times> (string \<times> string) list" where
  "open_out e j =
     (case output_path j of
        None \<Rightarrow> (Inr (False, None), [])
      | Some p \<Rightarrow>
          if p = [] then (Inr (False, Some p), [])
          else
            (case negotiate (\<lambda>path cc. writer_open e path cc (cap_fps e)
                                (cap_width e, cap_height e)) p fourcc_options [] of
               (Some (used_codec, p'), tried) \<Rightarrow> (Inr (True, Some p'), tried)
             | (None, tried) \<Rightarrow> (Inl no_encoder_error, tried)))"

section \<open>The frame loop (lines 236-285)\<close>

text \<open>The local variables of the loop, and the frames the writer has accepted.\<close>

record loop_state =
  frame_count :: nat
  frame_detections :: "result_dict list"
  total_persons :: nat
  last_detections :: "detection list option"
  last_annotated_frame :: "annotated option"
  out_written :: "annotated list"

definition init_state :: loop_state where
  "init_state =
     \<lparr>frame_count = 0, frame_detections = [], total_persons = 0,
      last_detections = None, last_annotated_frame = None, out_written = []\<rparr>"

text \<open>A frame written as it was read.\<close>

definition plain :: "frame \<Rightarrow> annotated" where
  "plain fr = \<lparr>base = fr, rects = [], labels = []\<rparr>"

text \<open>Lines 266-281: the last detections drawn on a copy of the current frame, a
  rectangle and a label for every detection whose \<^verbatim>\<open>bbox\<close> has four entries.\<close>

definition draw_last :: "frame \<Rightarrow> detection list \<Rightarrow> annotated" where
  "draw_last fr dets =
     (let drawn = filter (\<lambda>d. length (bbox d) = 4) dets
      in \<lparr>base = fr,
          rects = map (\<lambda>d. (py_int (bbox d ! 0), py_int (bbox d ! 1),
                             py_int (bbox d ! 2), py_int (bbox d ! 3))) drawn,
          labels = map (\<lambda>d. (confidence d, py_int (bbox d ! 0), py_int (bbox d ! 1) - 10))
                     drawn\<rparr>)"

definition out_write :: "env \<Rightarrow> loop_state \<Rightarrow> annotated \<Rightarrow> loop_state \<times> py_exc option" where
  "out_write e st im =
     (case write_raises e (length (out_written st)) of
        Some x \<Rightarrow> (st, Some x)
      | None \<Rightarrow> (st\<lparr>out_written := out_written st @ [im]\<rparr>, None))"

text \<open>One pass through the body of the \<^verbatim>\<open>while\<close> loop for a frame that was read; \<open>out\<close>
  tells whether a writer is open. The result is the state reached and the exception
  raised there, if any: \<^verbatim>\<open>frame_count % frame_interval\<close> and \<^verbatim>\<open>frame_count / fps\<close> raise
  on a zero divisor.\<close>

definition loop_step ::
  "env \<Rightarrow> job \<Rightarrow> bool \<Rightarrow> loop_state \<Rightarrow> frame \<Rightarrow> loop_state \<times> py_exc option" where
  "loop_step e j out st fr =
     (let st1 = st\<lparr>frame_count := frame_count st + 1\<rparr>
      in if frame_interval j = 0 then (st1, Some ZeroDivisionError)
         else if int (frame_count st1) mod frame_interval j = 0 then
           (let r = process_video_frame (yolo e) fr (conf_threshold j)
            in if cap_fps e = 0 then (st1, Some ZeroDivisionError)
               else
                 (let result = r\<lparr>frame_number := Some (frame_count st1),
                                 timestamp := Some (int_truediv (int (frame_count st1))
                                                      (cap_fps e))\<rparr>;
                      shown = (case annotated_frame result of
                                 None \<Rightarrow> plain fr | Some a \<Rightarrow> a);
                      st2 = st1\<lparr>frame_detections := frame_detections st1 @ [result],
                                total_persons := total_persons st1 + person_count result,
                                last_detections := Some (detections result),
                                last_annotated_frame := Some shown\<rparr>
                  in if out then out_write e st2 shown else (st2, None)))
         else
           (case last_detections st1 of
              Some dets \<Rightarrow>
                if out \<and> dets \<noteq> [] then out_write e st1 (draw_last fr dets)
                else if out then out_write e st1 (plain fr)
                else (st1, None)
            | None \<Rightarrow> if out then out_write e st1 (plain fr) else (st1, None)))"

fun frame_loop ::
  "env \<Rightarrow> job \<Rightarrow> bool \<Rightarrow> loop_state \<Rightarrow> frame list \<Rightarrow> loop_state \<times> py_exc option" where
  "frame_loop e j out st [] = (st, None)"
| "frame_loop e j out st (fr # frs) =
     (case loop_step e j out st fr of
        (st', Some x) \<Rightarrow> (st', Some x)
      | (st', None) \<Rightarrow> frame_loop e j out st' frs)"

section \<open>What the loop is expected to produce\<close>

text \<open>These definitions state, from the frame index alone, what the loop has computed
  after a number of frames; the loop is proved to agree with them. Frame indices start at
  1, \<open>n\<close> is the frame interval. \<open>anchor_index n i\<close> is the greatest multiple of \<open>n\<close> that
  is at most \<open>i\<close> (0 when no anchor frame has been reached), \<open>anchor_result\<close> the
  dictionary appended at an anchor frame, \<open>expected_frame\<close> the image handed to the writer
  for frame \<open>i\<close>, and \<open>loop_inv\<close> the state after \<open>k\<close> frames.\<close>

definition anchor_index :: "nat \<Rightarrow> nat \<Rightarrow> nat" where
  "anchor_index n i = i div n * n"

definition anchor_result :: "env \<Rightarrow> job \<Rightarrow> nat \<Rightarrow> result_dict" where
  "anchor_result e j a =
     (process_video_frame (yolo e) (cap_frames e ! (a - 1)) (conf_threshold j))
       \<lparr>frame_number := Some a, timestamp := Some (int_truediv (int a) (cap_fps e))\<rparr>"

definition expected_frame :: "env \<Rightarrow> job \<Rightarrow> nat \<Rightarrow> annotated" where
  "expected_frame e j i =
     (let n = nat (frame_interval j); fr = cap_frames e ! (i - 1); a = anchor_index n i
      in if i mod n = 0
         then (case annotated_frame (anchor_result e j i) of None \<Rightarrow> plain fr | Some im \<Rightarrow> im)
         else if a = 0 then plain fr
         else draw_last fr (detections (anchor_result e j a)))"

definition loop_inv :: "env \<Rightarrow> job \<Rightarrow> bool \<Rightarrow> nat \<Rightarrow> loop_state \<Rightarrow> bool" where
  "loop_inv e j out k st \<longleftrightarrow>
     frame_count st = k \<and>
     frame_detections st =
       map (anchor_result e j) (filter (\<lambda>i. i mod nat (frame_interval j) = 0) [1..<Suc k]) \<and>
     total_persons st = sum_list (map person_count (frame_detections st)) \<and>
     last_detections st =
       (if anchor_index (nat (frame_interval j)) k = 0 then None
        else Some (detections (anchor_result e j (anchor_index (nat (frame_interval j)) k)))) \<and>
     out_written st = (if out then map (expected_frame e j) [1..<Suc k] else [])"

section \<open>Transcode fallback (lines 331-398)\<close>

definition h264_temp_path :: "string \<Rightarrow> string" where
  "h264_temp_path input_path = py_replace ''.mp4'' ''_h264.mp4'' input_path"

text \<open>\<^verbatim>\<open>if os.path.exists(p): os.remove(p)\<close> and \<^verbatim>\<open>os.replace(src, dst)\<close> on a disk of plain
  files, where removing or renaming an existing file succeeds.\<close>

definition remove_if_exists :: "string \<Rightarrow> world \<Rightarrow> world" where
  "remove_if_exists p w = (if p \<in> dom (disk w) then w\<lparr>disk := (disk w)(p := None)\<rparr> else w)"

definition os_replace :: "string \<Rightarrow> string \<Rightarrow> world \<Rightarrow> world" where
  "os_replace src dst w =
     (if src = dst then w else w\<lparr>disk := ((disk w)(dst := disk w src))(src := None)\<rparr>)"

text \<open>The command line of lines 349-359, and the effect of running it: the run is
  recorded, and the file the transcoder leaves at its output path, if any, replaces what
  was there.\<close>

definition ffmpeg_cmd :: "string \<Rightarrow> string \<Rightarrow> string \<Rightarrow> string list" where
  "ffmpeg_cmd ffmpeg_exe input_path temp_path =
     [ffmpeg_exe, ''-i'', input_path, ''-c:v'', ''libx264'', ''-preset'', ''medium'',
      ''-crf'', ''23'', ''-pix_fmt'', ''yuv420p'', ''-movflags'', ''+faststart'', ''-y'',
      temp_path]"

definition run_ffmpeg :: "env \<Rightarrow> string list \<Rightarrow> string \<Rightarrow> world \<Rightarrow> world" where
  "run_ffmpeg e cmd temp_path w =
     w\<lparr>ffmpeg_runs := ffmpeg_runs w @ [cmd],
       disk := (case snd (subprocess_run e cmd) of
                  None \<Rightarrow> disk w
                | Some n \<Rightarrow> (disk w)(temp_path \<mapsto> n))\<rparr>"

text \<open>The body of the \<^verbatim>\<open>try\<close> block after its two \<^verbatim>\<open>import\<close> statements (lines 340-378):
  the world reached, and the exception raised or the path returned.\<close>

definition reencode_try :: "env \<Rightarrow> string \<Rightarrow> world \<Rightarrow> world \<times> (py_exc + string)" where
  "reencode_try e input_path w =
     (case get_ffmpeg_exe e of
        Inl x \<Rightarrow> (w, Inl x)
      | Inr ffmpeg_exe \<Rightarrow>
          (let temp_path = h264_temp_path input_path;
               cmd = ffmpeg_cmd ffmpeg_exe input_path temp_path;
               w1 = run_ffmpeg e cmd temp_path w
           in case fst (subprocess_run e cmd) of
                RunRaises x \<Rightarrow> (w1, Inl x)
              | Exited returncode \<Rightarrow>
                  if returncode = 0 \<and>
                     (case disk w1 temp_path of None \<Rightarrow> False | Some n \<Rightarrow> 0 < n)
                  then (os_replace temp_path input_path w1, Inr input_path)
                  else (remove_if_exists temp_path w1, Inr input_path)))"

text \<open>
  The whole function with its three handlers: \<^verbatim>\<open>ImportError\<close> returns at once,
  \<^verbatim>\<open>subprocess.TimeoutExpired\<close> and any other exception remove the temporary file first.

  \<^verbatim>\<open>subprocess\<close> is a local name of the function, bound by the second \<^verbatim>\<open>import\<close>
  statement (line 338). When \<^verbatim>\<open>import imageio_ffmpeg\<close> raises an \<^verbatim>\<open>ImportError\<close>, the
  first handler takes it. When it raises anything else, the first handler does not match
  and the second clause, \<^verbatim>\<open>except subprocess.TimeoutExpired\<close> (line 384), reads the name
  while it is still unbound: an \<^verbatim>\<open>UnboundLocalError\<close> leaves the function, and the third
  handler is not reached.
\<close>

definition reencode_to_h264 :: "env \<Rightarrow> string \<Rightarrow> world \<Rightarrow> world \<times> (py_exc + string)" where
  "reencode_to_h264 e input_path w =
     (case import_imageio e of
        Some x \<Rightarrow> if x = ImportError then (w, Inr input_path) else (w, Inl UnboundLocalError)
      | None \<Rightarrow>
          (case reencode_try e input_path w of
             (w1, Inr p) \<Rightarrow> (w1, Inr p)
           | (w1, Inl ImportError) \<Rightarrow> (w1, Inr input_path)
           | (w1, Inl TimeoutExpired) \<Rightarrow>
               (remove_if_exists (h264_temp_path input_path) w1, Inr input_path)
           | (w1, Inl x) \<Rightarrow>
               (remove_if_exists (h264_temp_path input_path) w1, Inr input_path)))"

text \<open>The imports that end in the \<^verbatim>\<open>UnboundLocalError\<close>.\<close>

definition import_escapes :: "env \<Rightarrow> bool" where
  "import_escapes e = (case import_imageio e of None \<Rightarrow> False | Some x \<Rightarrow> x \<noteq> ImportError)"

text \<open>Neither the transcode pass nor its clean-up touches a handle, the list of writers
  constructed or the frames written.\<close>

definition same_handles :: "world \<Rightarrow> world \<Rightarrow> bool" where
  "same_handles w w' \<longleftrightarrow>
     attempts w' = attempts w \<and> written w' = written w \<and>
     cap_released w' = cap_released w \<and> out_released w' = out_released w"

section \<open>The video job (lines 164-320)\<close>

text \<open>The full result; its key \<^verbatim>\<open>frame_detections\<close> is the field \<open>returned_detections\<close>.\<close>

record job_result =
  total_frames :: int
  processed_frames :: nat
  average_person_count :: real
  average_density :: real
  returned_detections :: "result_dict list"
  output_video :: "string option"
  output_exists :: bool

text \<open>The dictionary \<^verbatim>\<open>process_video\<close> returns: the one of the \<^verbatim>\<open>except\<close> clause
  (\<^verbatim>\<open>error\<close>, \<^verbatim>\<open>total_frames\<close>, \<^verbatim>\<open>processed_frames\<close>) or the full one.\<close>

datatype job_dict = ErrorDict py_exc int nat | ResultDict job_result

definition processed_of :: "job_dict \<Rightarrow> nat" where
  "processed_of d = (case d of ErrorDict x t p \<Rightarrow> p | ResultDict r \<Rightarrow> processed_frames r)"

text \<open>The job looks at the disk only after the writer has been released, so the world
  carries the files as they are then from the start.\<close>

definition start_world :: "env \<Rightarrow> world" where
  "start_world e =
     \<lparr>cap_released = False, out_released = False, attempts = [], written = [],
      ffmpeg_runs = [], disk = disk_after_release e\<rparr>"

text \<open>Lines 287-299: both handles are released, then the output file is looked up and,
  when its name ends in \<^verbatim>\<open>.mp4\<close>, re-encoded; an exception that leaves
  \<^verbatim>\<open>_reencode_to_h264\<close> is raised here, inside the \<^verbatim>\<open>try\<close> block of \<^verbatim>\<open>process_video\<close>.\<close>

definition close_out ::
  "env \<Rightarrow> bool \<Rightarrow> string option \<Rightarrow> world \<Rightarrow> world \<times> (py_exc + string option)" where
  "close_out e out out_path w =
     (let w1 = w\<lparr>cap_released := True\<rparr>
      in if out then
           (let w2 = w1\<lparr>out_released := True\<rparr>
            in case out_path of
                 None \<Rightarrow> (w2, Inr None)
               | Some p \<Rightarrow>
                   if p \<in> dom (disk w2) then
                     if suffix ''.mp4'' p then
                       (case reencode_to_h264 e p w2 of
                          (w3, Inl x) \<Rightarrow> (w3, Inl x)
                        | (w3, Inr p') \<Rightarrow> (w3, Inr (Some p')))
                     else (w2, Inr (Some p))
                   else (w2, Inr (Some p)))
         else (w1, Inr out_path))"

text \<open>Lines 301-312. \<^verbatim>\<open>total_persons / len(frame_detections)\<close> divides two \<^verbatim>\<open>int\<close>s;
  \<^verbatim>\<open>sum(...) / len(frame_detections)\<close> divides a float by an \<^verbatim>\<open>int\<close>, which is converted to
  a float first.\<close>

definition aggregate :: "env \<Rightarrow> loop_state \<Rightarrow> string option \<Rightarrow> world \<Rightarrow> job_result" where
  "aggregate e st out_path w =
     (let n = length (frame_detections st);
          avg_person_count = (if frame_detections st \<noteq> []
                              then int_truediv (int (total_persons st)) (int n) else 0);
          avg_density = (if frame_detections st \<noteq> []
                         then float_div
                                (float_sum e (map density_percentage (frame_detections st)))
                                (round_double (of_nat n))
                         else 0)
      in \<lparr>total_frames = cap_frame_count e,
          processed_frames = n,
          average_person_count = py_round2 avg_person_count,
          average_density = py_round2 avg_density,
          returned_detections = take 100 (frame_detections st),
          output_video = out_path,
          output_exists = (case out_path of
                             None \<Rightarrow> False
                           | Some p \<Rightarrow> p \<noteq> [] \<and> p \<in> dom (disk w))\<rparr>)"

text \<open>The whole of \<^verbatim>\<open>process_video\<close>: every exception raised inside the \<^verbatim>\<open>try\<close> block ends
  in the \<^verbatim>\<open>except\<close> clause, which returns the error dictionary with both counts 0 and
  releases nothing; an exception raised after the loop (by the transcode pass) finds both
  handles released already.\<close>

definition process_video :: "env \<Rightarrow> job \<Rightarrow> job_dict \<times> world" where
  "process_video e j =
     (let w0 = start_world e
      in if \<not> cap_isOpened e
         then (ErrorDict (ValueError (''Could not open video: '' @ video_path j)) 0 0, w0)
         else
           (case open_out e j of
              (Inl x, tried) \<Rightarrow> (ErrorDict x 0 0, w0\<lparr>attempts := tried\<rparr>)
            | (Inr (out, out_path), tried) \<Rightarrow>
                (case frame_loop e j out init_state (cap_frames e) of
                   (st, Some x) \<Rightarrow>
                     (ErrorDict x 0 0, w0\<lparr>attempts := tried, written := out_written st\<rparr>)
                 | (st, None) \<Rightarrow>
                     (case close_out e out out_path
                             (w0\<lparr>attempts := tried, written := out_written st\<rparr>) of
                        (w1, Inl x) \<Rightarrow> (ErrorDict x 0 0, w1)
                      | (w1, Inr out_path') \<Rightarrow>
                          (ResultDict (aggregate e st out_path' w1), w1)))))"

text \<open>The two averages of a list of frame results as Python computes them from the list
  alone: \<^verbatim>\<open>round(sum(person_count) / len, 2)\<close> and \<^verbatim>\<open>round(sum(density_percentage) / len, 2)\<close>,
  0 for the empty list.\<close>

definition average_count :: "result_dict list \<Rightarrow> real" where
  "average_count ds =
     py_round2 (if ds = [] then 0
                else int_truediv (int (sum_list (map person_count ds))) (int (length ds)))"

definition average_density_of :: "env \<Rightarrow> result_dict list \<Rightarrow> real" where
  "average_density_of e ds =
     py_round2 (if ds = [] then 0
                else float_div (float_sum e (map density_percentage ds))
                       (round_double (of_nat (length ds))))"

text \<open>The transcoder runs a job is expected to make, given whether a writer was open and
  the final output path: one run when the output file is on disk, its name ends in
  \<^verbatim>\<open>.mp4\<close>, the module imports and the executable is found; none otherwise.\<close>

definition transcode_runs :: "env \<Rightarrow> bool \<Rightarrow> string option \<Rightarrow> string list list" where
  "transcode_runs e out op =
     (case op of
        None \<Rightarrow> []
      | Some p \<Rightarrow>
          if out \<and> p \<in> dom (disk_after_release e) \<and> suffix ''.mp4'' p \<and> import_imageio e = None
          then (case get_ffmpeg_exe e of
                  Inl x \<Rightarrow> []
                | Inr exe \<Rightarrow> [ffmpeg_cmd exe p (h264_temp_path p)])
          else [])"

section \<open>Concrete inputs\<close>

text \<open>A detector that finds one person in every frame, and a 480 x 640 frame.\<close>

definition one_person :: "frame \<Rightarrow> real \<Rightarrow> py_exc + box list list" where
  "one_person fr conf =
     Inr [[\<lparr>bx1 = 10, by1 = 20, bx2 = 110, by2 = 220, bconf = 9 / 10, bcls = 0\<rparr>]]"

definition vga :: frame where
  "vga = \<lparr>rows = 480, cols = 640, pixels = 0\<rparr>"

text \<open>A three-frame source at 10 frames per second; of the encoders only \<^verbatim>\<open>MJPG\<close> opens;
  no write fails; the transcoder is installed and succeeds. The job asks for every
  second frame and for an annotated video at \<^verbatim>\<open>out.mp4\<close>.\<close>

definition only_mjpg :: "string \<Rightarrow> string \<Rightarrow> open_outcome" where
  "only_mjpg path cc = (if cc = ''MJPG'' then Opened else NotOpened)"

definition studio :: env where
  "studio =
     \<lparr>cap_isOpened = True, cap_fps = 10, cap_width = 640, cap_height = 480,
      cap_frame_count = 3, cap_frames = [vga, vga, vga], yolo = one_person,
      writer_open = (\<lambda>path cc fps size. only_mjpg path cc),
      write_raises = (\<lambda>k. None),
      disk_after_release = [''out.avi'' \<mapsto> 1000],
      import_imageio = None, get_ffmpeg_exe = Inr ''ffmpeg'',
      subprocess_run = (\<lambda>cmd. (Exited 0, Some 500)), float_sum = left_sum\<rparr>"

definition clip_job :: job where
  "clip_job =
     \<lparr>video_path = ''in.mp4'', output_path = Some ''out.mp4'', frame_interval = 2,
      conf_threshold = 1 / 4\<rparr>"

text \<open>The same source where no encoder opens.\<close>

definition no_codec :: env where
  "no_codec = studio\<lparr>writer_open := (\<lambda>path cc fps size. NotOpened)\<rparr>"

text \<open>A source whose first frame alone shows a person, read frame by frame without an
  output video; and a source of 101 frames.\<close>

definition marked :: frame where
  "marked = \<lparr>rows = 480, cols = 640, pixels = 1\<rparr>"

definition marked_only :: "frame \<Rightarrow> real \<Rightarrow> py_exc + box list list" where
  "marked_only fr conf = (if pixels fr = 1 then one_person fr conf else Inr [[]])"

definition lone_env :: env where
  "lone_env = studio\<lparr>cap_frames := [marked, vga, vga], yolo := marked_only\<rparr>"

definition every_frame :: job where
  "every_frame =
     \<lparr>video_path = ''in.mp4'', output_path = None, frame_interval = 1,
      conf_threshold = 1 / 4\<rparr>"

definition long_env :: env where
  "long_env = studio\<lparr>cap_frame_count := 101, cap_frames := replicate 101 vga\<rparr>"

text \<open>The three-frame source where the third write fails.\<close>

definition disk_full :: env where
  "disk_full =
     studio\<lparr>write_raises := (\<lambda>k. if k = 2 then Some (ExternalError ''disk full'') else None)\<rparr>"

text \<open>A source that opens, reports 0 frames and delivers none.\<close>

definition empty_env :: env where
  "empty_env = studio\<lparr>cap_frame_count := 0, cap_frames := []\<rparr>"







text \<open>The three-frame source where the first encoder opens and leaves \<^verbatim>\<open>out.mp4\<close>; and
  the same on an installation where \<^verbatim>\<open>import imageio_ffmpeg\<close> raises an \<^verbatim>\<open>OSError\<close>.\<close>

definition mp4_env :: env where
  "mp4_env =
     studio\<lparr>writer_open := (\<lambda>path cc fps size. Opened),
            disk_after_release := [''out.mp4'' \<mapsto> 1000]\<rparr>"

definition bad_install :: env where
  "bad_install = mp4_env\<lparr>import_imageio := Some (ExternalError ''OSError'')\<rparr>"

section \<open>Properties of the rounding to a double\<close>

lemma rne_mono:
  assumes "a \<le> b"
  shows "rne a \<le> rne b"
proof (cases "\<lfloor>a\<rfloor> = \<lfloor>b\<rfloor>")
  case True
  with assms show ?thesis
    by (auto simp: rne_def Let_def)
next
  case False
  with assms have lt: "\<lfloor>a\<rfloor> + 1 \<le> \<lfloor>b\<rfloor>"
    using floor_mono [of a b] by linarith
  have "rne a \<le> \<lfloor>a\<rfloor> + 1"
    by (auto simp: rne_def Let_def)
  moreover have "\<lfloor>b\<rfloor> \<le> rne b"
    by (auto simp: rne_def Let_def)
  ultimately show ?thesis using lt by linarith
qed

lemma rne_of_int: "rne (of_int k) = k"
  by (simp add: rne_def)

lemma up_bounds:
  assumes "1 \<le> x"
  shows "2 ^ up x \<le> x \<and> x < 2 ^ Suc (up x)"
  using assms
proof (induction x rule: up.induct)
  case (1 x)
  show ?case
  proof (cases "x < 2")
    case True
    with "1.prems" show ?thesis
      by (simp add: up.simps [of x])
  next
    case False
    then have "1 \<le> x / 2" by simp
    from "1.IH" [OF False this] False show ?thesis
      by (simp add: up.simps [of x])
  qed
qed

lemma binade_bounds:
  assumes "0 < x"
  shows "2 powi binade x \<le> x \<and> x < 2 powi (binade x + 1)"
proof (cases "1 \<le> x")
  case True
  with up_bounds [OF True] show ?thesis
    by (simp add: binade_def power_int_add)
next
  case False
  define k where "k = up (1 / x)"
  from False assms have "1 \<le> 1 / x" by simp
  from up_bounds [OF this] have b: "2 ^ k \<le> 1 / x" "1 / x < 2 ^ Suc k"
    by (simp_all add: k_def)
  from b(1) assms have hi: "x * 2 ^ k \<le> 1"
    by (simp add: field_simps)
  from b(2) assms have lo: "1 < x * 2 ^ Suc k"
    by (simp add: field_simps)
  show ?thesis
  proof (cases "x * 2 ^ k = 1")
    case True
    then have bx: "binade x = - int k"
      using False by (simp add: binade_def k_def [symmetric])
    from True have x: "x = 2 powi (- int k)"
      by (simp add: power_int_minus field_simps)
    have "x < 2 powi (- int k + 1)"
      by (subst x) (intro power_int_strict_increasing, simp_all)
    with x show ?thesis
      unfolding bx by simp
  next
    case ne: False
    then have bx: "binade x = - int (Suc k)"
      using False by (simp add: binade_def k_def [symmetric])
    from ne hi have "x * 2 ^ k < 1" by simp
    then have up: "x < 2 powi (- int k)"
      by (simp add: power_int_minus field_simps)
    have "(2 :: real) powi (- int (Suc k)) = inverse (2 ^ Suc k)"
      by (simp only: power_int_minus power_int_of_nat)
    also from lo assms have "inverse (2 ^ Suc k) \<le> x"
      by (simp add: field_simps)
    finally have low: "2 powi (- int (Suc k)) \<le> x" .
    have "- int (Suc k) + 1 = - int k" by simp
    with up low show ?thesis
      unfolding bx by simp
  qed
qed

lemma binade_eqI:
  assumes "0 < x" and "2 powi k \<le> x" and "x < 2 powi (k + 1)"
  shows "binade x = k"
proof -
  note b = binade_bounds [OF assms(1)]
  have "\<not> k < binade x"
  proof
    assume "k < binade x"
    then have "k + 1 \<le> binade x" by simp
    then have "(2 :: real) powi (k + 1) \<le> 2 powi binade x"
      by (intro power_int_increasing) simp_all
    with b assms(3) show False by linarith
  qed
  moreover have "\<not> binade x < k"
  proof
    assume "binade x < k"
    then have "binade x + 1 \<le> k" by simp
    then have "(2 :: real) powi (binade x + 1) \<le> 2 powi k"
      by (intro power_int_increasing) simp_all
    with b assms(2) show False by linarith
  qed
  ultimately show ?thesis by simp
qed

lemma binade_mono:
  assumes "0 < x" and "x \<le> y"
  shows "binade x \<le> binade y"
proof (rule ccontr)
  assume "\<not> binade x \<le> binade y"
  then have "binade y + 1 \<le> binade x" by simp
  then have "(2 :: real) powi (binade y + 1) \<le> 2 powi binade x"
    by (intro power_int_increasing) simp_all
  moreover from assms have "0 < y" by simp
  note binade_bounds [OF this] binade_bounds [OF assms(1)]
  ultimately show False using assms(2) by linarith
qed

lemma round_double_0: "round_double 0 = 0"
  by (simp add: round_double_def rne_def)

lemma round_double_bounds:
  assumes "0 < x"
  shows "2 powi binade x \<le> round_double x \<and> round_double x \<le> 2 powi (binade x + 1)"
proof -
  define u :: real where "u = 2 powi (binade x - 52)"
  have u: "0 < u" by (simp add: u_def)
  have lo: "2 powi binade x = 2 ^ 52 * u"
    unfolding u_def by (simp add: power_int_diff)
  have hi: "2 powi (binade x + 1) = 2 ^ 53 * u"
    unfolding u_def by (simp add: power_int_diff power_int_add)
  note b = binade_bounds [OF assms]
  from b u have "2 ^ 52 \<le> x / u"
    unfolding lo by (simp add: le_divide_eq)
  then have "rne (2 ^ 52) \<le> rne (x / u)" by (rule rne_mono)
  moreover have "rne (2 ^ 52) = 2 ^ 52"
    using rne_of_int [of "2 ^ 52"] by simp
  ultimately have a: "(2 :: real) ^ 52 \<le> of_int (rne (x / u))"
    by (metis of_int_le_iff of_int_numeral of_int_power)
  from b u have "x / u \<le> 2 ^ 53"
    unfolding hi by (simp add: divide_le_eq)
  then have "rne (x / u) \<le> rne (2 ^ 53)" by (rule rne_mono)
  moreover have "rne (2 ^ 53) = 2 ^ 53"
    using rne_of_int [of "2 ^ 53"] by simp
  ultimately have c: "of_int (rne (x / u)) \<le> (2 :: real) ^ 53"
    by (metis of_int_le_iff of_int_numeral of_int_power)
  have rd: "round_double x = of_int (rne (x / u)) * u"
    using assms by (simp add: round_double_def u_def Let_def)
  from a u have "2 ^ 52 * u \<le> of_int (rne (x / u)) * u"
    by (intro mult_right_mono) simp_all
  moreover from c u have "of_int (rne (x / u)) * u \<le> 2 ^ 53 * u"
    by (intro mult_right_mono) simp_all
  ultimately show ?thesis
    unfolding lo hi rd by simp
qed

lemma round_double_mono_pos:
  assumes "0 < x" and "x \<le> y"
  shows "round_double x \<le> round_double y"
proof (cases "binade x = binade y")
  case True
  define u :: real where "u = 2 powi (binade x - 52)"
  have u: "0 < u" by (simp add: u_def)
  from assms u have "x / u \<le> y / u"
    by (simp add: divide_right_mono)
  then have "rne (x / u) \<le> rne (y / u)" by (rule rne_mono)
  then have "(of_int (rne (x / u)) :: real) * u \<le> of_int (rne (y / u)) * u"
    using u by (intro mult_right_mono) simp_all
  moreover from assms have "0 < y" by simp
  ultimately show ?thesis
    using assms(1) True by (simp add: round_double_def u_def Let_def)
next
  case False
  from assms have y: "0 < y" by simp
  from False binade_mono [OF assms] have "binade x + 1 \<le> binade y" by simp
  then have "(2 :: real) powi (binade x + 1) \<le> 2 powi binade y"
    by (intro power_int_increasing) simp_all
  with round_double_bounds [OF assms(1)] round_double_bounds [OF y]
  show ?thesis by linarith
qed

lemma round_double_nonneg:
  assumes "0 \<le> x"
  shows "0 \<le> round_double x"
proof (cases "x = 0")
  case True
  then show ?thesis by (simp add: round_double_0)
next
  case False
  with assms have x: "0 < x" by simp
  have "(0 :: real) \<le> 2 powi binade x" by simp
  with round_double_bounds [OF x] show ?thesis by linarith
qed

lemma round_double_mono:
  assumes "0 \<le> x" and "x \<le> y"
  shows "round_double x \<le> round_double y"
proof (cases "x = 0")
  case True
  with assms round_double_nonneg [of y] show ?thesis
    by (simp add: round_double_0)
next
  case False
  with assms have "0 < x" by simp
  then show ?thesis using assms(2) by (rule round_double_mono_pos)
qed

lemma binade_1: "binade 1 = 0"
  by (rule binade_eqI) simp_all

lemma binade_100: "binade 100 = 6"
  by (rule binade_eqI) simp_all

lemma round_double_1: "round_double 1 = 1"
  by (simp add: round_double_def binade_1 rne_def Let_def)

lemma round_double_100: "round_double 100 = 100"
  by (simp add: round_double_def binade_100 rne_def Let_def)

section \<open>Properties of the density\<close>

lemma py_round2_0: "py_round2 0 = 0"
  by (simp add: py_round2_def rne_def round_double_0)

lemma py_round2_100: "py_round2 100 = 100"
  by (simp add: py_round2_def rne_def round_double_100)

lemma py_round2_bounds:
  assumes "0 \<le> x" and "x \<le> 100"
  shows "0 \<le> py_round2 x \<and> py_round2 x \<le> 100"
proof -
  have "rne 0 = 0"
    by (simp add: rne_def)
  moreover from assms(1) have "rne 0 \<le> rne (x * 100)"
    by (intro rne_mono) simp
  ultimately have lo: "(0 :: real) \<le> of_int (rne (x * 100)) / 100"
    by simp
  from assms(2) have "rne (x * 100) \<le> rne (of_int 10000)"
    by (intro rne_mono) simp
  then have "rne (x * 100) \<le> 10000"
    by (simp only: rne_of_int)
  then have "(of_int (rne (x * 100)) :: real) \<le> 10000"
    by (metis of_int_le_iff of_int_numeral)
  then have hi: "(of_int (rne (x * 100)) :: real) / 100 \<le> 100"
    by simp
  from lo have "0 \<le> py_round2 x"
    unfolding py_round2_def by (rule round_double_nonneg)
  moreover from lo hi have "py_round2 x \<le> round_double 100"
    unfolding py_round2_def by (rule round_double_mono)
  ultimately show ?thesis
    by (simp add: round_double_100)
qed

lemma density_value_bounds:
  "0 \<le> min 100 (float_mul (int_truediv (int m) (int a)) 100)
   \<and> min 100 (float_mul (int_truediv (int m) (int a)) 100) \<le> 100"
proof -
  have "(0 :: real) \<le> of_int (int m) / of_int (int a)"
    by simp
  then have "0 \<le> int_truediv (int m) (int a)"
    unfolding int_truediv_def by (rule round_double_nonneg)
  then have "0 \<le> int_truediv (int m) (int a) * 100"
    by simp
  then have "0 \<le> float_mul (int_truediv (int m) (int a)) 100"
    unfolding float_mul_def by (rule round_double_nonneg)
  then show ?thesis by simp
qed

lemma reported_density_bounds: "0 \<le> reported_density c a \<and> reported_density c a \<le> 100"
proof (cases "a = 0")
  case True
  then show ?thesis by (simp add: reported_density_def)
next
  case False
  from density_value_bounds [of "c * 7500" a]
  have "0 \<le> py_round2 (min 100 (float_mul (int_truediv (int (c * 7500)) (int a)) 100))
      \<and> py_round2 (min 100 (float_mul (int_truediv (int (c * 7500)) (int a)) 100)) \<le> 100"
    by (intro py_round2_bounds) blast+
  with False show ?thesis
    by (simp only: reported_density_def if_False)
qed

lemma reported_density_0: "reported_density 0 a = 0"
  by (simp add: reported_density_def int_truediv_def float_mul_def round_double_0 py_round2_0)

lemma reported_density_saturates:
  assumes "0 < a" and "a \<le> c * 7500"
  shows "reported_density c a = 100"
proof -
  have "(of_nat a :: real) \<le> of_nat (c * 7500)"
    using assms(2) of_nat_le_iff by blast
  then have "(1 :: real) \<le> of_nat (c * 7500) / of_nat a"
    using assms(1) by (simp add: le_divide_eq)
  then have "(1 :: real) \<le> of_int (int (c * 7500)) / of_int (int a)"
    by simp
  then have "round_double 1 \<le> int_truediv (int (c * 7500)) (int a)"
    unfolding int_truediv_def by (intro round_double_mono) simp_all
  then have "1 \<le> int_truediv (int (c * 7500)) (int a)"
    by (simp only: round_double_1)
  then have "100 \<le> int_truediv (int (c * 7500)) (int a) * 100"
    by simp
  then have "round_double 100 \<le> float_mul (int_truediv (int (c * 7500)) (int a)) 100"
    unfolding float_mul_def by (intro round_double_mono) simp_all
  then have "100 \<le> float_mul (int_truediv (int (c * 7500)) (int a)) 100"
    by (simp only: round_double_100)
  then have "min 100 (float_mul (int_truediv (int (c * 7500)) (int a)) 100) = 100"
    by (simp add: min_def)
  then show ?thesis
    using assms(1) by (simp add: reported_density_def py_round2_100)
qed

lemma process_video_frame_density:
  "density_percentage (process_video_frame model fr conf) =
     reported_density (person_count (process_video_frame model fr conf)) (rows fr * cols fr)"
proof (cases "model fr conf")
  case (Inl x)
  then show ?thesis
    by (simp add: process_video_frame_def error_dict_def reported_density_0)
next
  case (Inr results)
  show ?thesis
  proof (cases "rows fr * cols fr = 0")
    case True
    with Inr show ?thesis
      by (simp add: process_video_frame_def density_of_def error_dict_def reported_density_0)
  next
    case False
    with Inr show ?thesis
      by (simp add: process_video_frame_def density_of_def reported_density_def Let_def)
  qed
qed

lemma process_video_frame_paths:
  "case model fr conf of
     Inl x \<Rightarrow> process_video_frame model fr conf = error_dict x
   | Inr results \<Rightarrow>
       if rows fr * cols fr = 0
       then process_video_frame model fr conf = error_dict ZeroDivisionError
       else person_count (process_video_frame model fr conf) = count_of results"
  by (simp add: process_video_frame_def density_of_def Let_def split: sum.splits)

lemma detect_persons_density:
  assumes "imread path = Some img"
  shows "density_percentage (detect_persons imread model path conf) =
           reported_density (person_count (detect_persons imread model path conf))
             (rows img * cols img)"
proof (cases "model img conf")
  case (Inl x)
  with assms show ?thesis
    by (simp add: detect_persons_def error_dict_def reported_density_0)
next
  case (Inr results)
  show ?thesis
  proof (cases "rows img * cols img = 0")
    case True
    with Inr assms show ?thesis
      by (simp add: detect_persons_def density_of_def error_dict_def reported_density_0)
  next
    case False
    with Inr assms show ?thesis
      by (simp add: detect_persons_def density_of_def reported_density_def Let_def)
  qed
qed

lemma detect_persons_paths:
  "case imread path of
     None \<Rightarrow>
       detect_persons imread model path conf =
         error_dict (ValueError (''Could not read image from '' @ path))
   | Some img \<Rightarrow>
       (case model img conf of
          Inl x \<Rightarrow> detect_persons imread model path conf = error_dict x
        | Inr results \<Rightarrow>
            if rows img * cols img = 0
            then detect_persons imread model path conf = error_dict ZeroDivisionError
            else person_count (detect_persons imread model path conf) = count_of results)"
  by (simp add: detect_persons_def density_of_def Let_def split: sum.splits option.splits)

text \<open>
  Claim C3, as the code has it. The density reported by \<^verbatim>\<open>process_video_frame\<close> and by
  \<^verbatim>\<open>detect_persons\<close> is a function of the reported person count and of the pixel area
  alone (\<open>reported_density\<close>); it lies in the interval from 0 to 100, is 0 for a count of
  0 and is exactly 100 as soon as 7500 times the count reaches the area. For a positive
  area it is \<^verbatim>\<open>round(min(100.0, (count * 7500 / area) * 100), 2)\<close> as the interpreter
  evaluates it in doubles: the quotient, the product and the decimal rounding are each
  rounded to a double, so the value is the claimed formula rounded to two decimals and not
  that formula itself. When the detector raises, the area is 0 or the image cannot be
  read, the error dictionary is returned, with count 0 and density 0; otherwise the count
  reported is the number of boxes of the last detector result.
\<close>

theorem density_rounded_and_clamped:
  "density_percentage (process_video_frame model fr conf) =
     reported_density (person_count (process_video_frame model fr conf)) (rows fr * cols fr)
   \<and> (case model fr conf of
        Inl x \<Rightarrow>
          person_count (process_video_frame model fr conf) = 0
          \<and> density_percentage (process_video_frame model fr conf) = 0
      | Inr results \<Rightarrow>
          if rows fr * cols fr = 0
          then person_count (process_video_frame model fr conf) = 0
               \<and> density_percentage (process_video_frame model fr conf) = 0
          else person_count (process_video_frame model fr conf) = count_of results)
   \<and> (case imread path of
        None \<Rightarrow>
          person_count (detect_persons imread model path conf) = 0
          \<and> density_percentage (detect_persons imread model path conf) = 0
      | Some img \<Rightarrow>
          density_percentage (detect_persons imread model path conf) =
            reported_density (person_count (detect_persons imread model path conf))
              (rows img * cols img)
          \<and> (case model img conf of
                Inl x \<Rightarrow>
                  person_count (detect_persons imread model path conf) = 0
                  \<and> density_percentage (detect_persons imread model path conf) = 0
              | Inr results \<Rightarrow>
                  if rows img * cols img = 0
                  then person_count (detect_persons imread model path conf) = 0
                       \<and> density_percentage (detect_persons imread model path conf) = 0
                  else person_count (detect_persons imread model path conf) =
                         count_of results))
   \<and> 0 \<le> reported_density c a \<and> reported_density c a \<le> 100
   \<and> reported_density 0 a = 0
   \<and> (0 < a \<longrightarrow>
        reported_density c a =
          py_round2 (min 100 (float_mul (int_truediv (int (c * 7500)) (int a)) 100)))
   \<and> (0 < a \<and> a \<le> c * 7500 \<longrightarrow> reported_density c a = 100)"
proof -
  have formula: "0 < a \<longrightarrow>
      reported_density c a =
        py_round2 (min 100 (float_mul (int_truediv (int (c * 7500)) (int a)) 100))"
    by (simp add: reported_density_def)
  have frame: "case model fr conf of
        Inl x \<Rightarrow>
          person_count (process_video_frame model fr conf) = 0
          \<and> density_percentage (process_video_frame model fr conf) = 0
      | Inr results \<Rightarrow>
          if rows fr * cols fr = 0
          then person_count (process_video_frame model fr conf) = 0
               \<and> density_percentage (process_video_frame model fr conf) = 0
          else person_count (process_video_frame model fr conf) = count_of results"
    using process_video_frame_paths [where model = model and fr = fr and conf = conf]
    by (auto simp: error_dict_def split: sum.splits if_splits)
  have img: "case imread path of
        None \<Rightarrow>
          person_count (detect_persons imread model path conf) = 0
          \<and> density_percentage (detect_persons imread model path conf) = 0
      | Some img \<Rightarrow>
          density_percentage (detect_persons imread model path conf) =
            reported_density (person_count (detect_persons imread model path conf))
              (rows img * cols img)
          \<and> (case model img conf of
                Inl x \<Rightarrow>
                  person_count (detect_persons imread model path conf) = 0
                  \<and> density_percentage (detect_persons imread model path conf) = 0
              | Inr results \<Rightarrow>
                  if rows img * cols img = 0
                  then person_count (detect_persons imread model path conf) = 0
                       \<and> density_percentage (detect_persons imread model path conf) = 0
                  else person_count (detect_persons imread model path conf) =
                         count_of results)"
  proof (cases "imread path")
    case None
    with detect_persons_paths [where imread = imread and path = path and model = model and conf = conf] show ?thesis
      by (simp add: error_dict_def)
  next
    case (Some img)
    with detect_persons_paths [where imread = imread and path = path and model = model and conf = conf]
      detect_persons_density [where imread = imread and path = path and img = img
        and model = model and conf = conf]
    show ?thesis
      by (auto simp: error_dict_def split: sum.splits if_splits)
  qed
  show ?thesis
    using process_video_frame_density [of model fr conf] frame img
      reported_density_bounds [of c a] reported_density_0 [of a] formula
      reported_density_saturates [of a c]
    by blast
qed

lemmas double_eval = round_double_def binade_def up.simps rne_def int_truediv_def float_mul_def
  float_div_def py_round2_def Let_def

text \<open>A 480 x 640 frame with one person: the quotient 7500 / 307200 and its product with
  100, 2.44140625, are doubles, and the code reports the double nearest to 2.44; with 41
  persons the value saturates at 100.\<close>

theorem density_rounded_and_clamped_witness:
  "reported_density 1 (480 * 640) = round_double (244 / 100)
   \<and> reported_density 41 (480 * 640) = 100"
  using density_rounded_and_clamped
    [of "\<lambda>f c. Inr []" "\<lparr>rows = 480, cols = 640, pixels = 0\<rparr>" 0 "\<lambda>p. None" "[]" 1 "480 * 640"]
    density_rounded_and_clamped
    [of "\<lambda>f c. Inr []" "\<lparr>rows = 480, cols = 640, pixels = 0\<rparr>" 0 "\<lambda>p. None" "[]" 41 "480 * 640"]
  by (simp add: double_eval)

theorem density_unrounded_counterexample:
  "person_count (process_video_frame one_person vga (1 / 4)) = 1
   \<and> density_percentage (process_video_frame one_person vga (1 / 4)) = round_double (244 / 100)
   \<and> min 100 (of_nat (1 * 7500) / of_nat (rows vga * cols vga) * 100) = (625 / 256 :: real)
   \<and> density_percentage (process_video_frame one_person vga (1 / 4)) \<noteq> 625 / 256"
  by (simp add: process_video_frame_def one_person_def vga_def density_of_def count_of_def
      double_eval)

section \<open>Properties of the codec negotiation\<close>

lemma negotiate_all_fail:
  assumes "\<forall>c\<in>set cands. opn (candidate_path p (fst c)) (snd c) \<noteq> Opened"
  shows "negotiate opn p cands tried = (None, tried @ map (attempt_of p) cands)"
  using assms
proof (induction cands arbitrary: tried)
  case Nil
  then show ?case by simp
next
  case (Cons c cs)
  obtain name cc where c: "c = (name, cc)" by (cases c)
  from Cons.prems have "opn (candidate_path p name) cc \<noteq> Opened"
    by (simp add: c)
  moreover from Cons.prems
  have "negotiate opn p cs (tried @ [(name, candidate_path p name)]) =
          (None, (tried @ [(name, candidate_path p name)]) @ map (attempt_of p) cs)"
    by (intro Cons.IH) simp
  ultimately show ?case
    by (cases "opn (candidate_path p name) cc") (simp_all add: c attempt_of_def Let_def)
qed

lemma negotiate_first_open:
  assumes "k < length cands"
    and "\<forall>c\<in>set (take k cands). opn (candidate_path p (fst c)) (snd c) \<noteq> Opened"
    and "opn (candidate_path p (fst (cands ! k))) (snd (cands ! k)) = Opened"
  shows "negotiate opn p cands tried =
           (Some (attempt_of p (cands ! k)), tried @ map (attempt_of p) (take (Suc k) cands))"
  using assms
proof (induction cands arbitrary: k tried)
  case Nil
  then show ?case by simp
next
  case (Cons c cs)
  obtain name cc where c: "c = (name, cc)" by (cases c)
  show ?case
  proof (cases k)
    case 0
    with Cons.prems show ?thesis
      by (simp add: c attempt_of_def Let_def)
  next
    case (Suc k')
    with Cons.prems have fails: "opn (candidate_path p name) cc \<noteq> Opened"
      by (simp add: c)
    from Suc Cons.prems
    have "negotiate opn p cs (tried @ [(name, candidate_path p name)]) =
            (Some (attempt_of p (cs ! k')),
             (tried @ [(name, candidate_path p name)]) @ map (attempt_of p) (take (Suc k') cs))"
      by (intro Cons.IH) simp_all
    with fails show ?thesis
      by (cases "opn (candidate_path p name) cc") (simp_all add: c Suc attempt_of_def Let_def)
  qed
qed

lemma no_straddle:
  assumes "\<not> prefix ''.mp4'' ys" and "ys \<noteq> []"
  shows "\<not> prefix ''.mp4'' (ys @ ''.mp4'')"
proof (cases ys)
  case Nil
  with assms show ?thesis by simp
next
  case (Cons a ys1)
  show ?thesis
  proof (cases ys1)
    case Nil
    with Cons assms show ?thesis by auto
  next
    case (Cons b ys2)
    note c2 = this
    show ?thesis
    proof (cases ys2)
      case Nil
      with c2 \<open>ys = a # ys1\<close> assms show ?thesis by auto
    next
      case (Cons c ys3)
      note c3 = this
      show ?thesis
      proof (cases ys3)
        case Nil
        with c2 c3 \<open>ys = a # ys1\<close> assms show ?thesis by auto
      next
        case (Cons d ys4)
        with c2 c3 \<open>ys = a # ys1\<close> assms show ?thesis by auto
      qed
    qed
  qed
qed

lemma replace_mp4_suffix:
  "py_replace ''.mp4'' new (xs @ ''.mp4'') = py_replace ''.mp4'' new xs @ new"
proof (induction "''.mp4''" new xs rule: py_replace.induct)
  case (1 new)
  then show ?case by simp
next
  case (2 new c cs)
  show ?case
  proof (cases "prefix ''.mp4'' (c # cs)")
    case True
    then obtain zs where zs: "c # cs = ''.mp4'' @ zs"
      by (auto simp: prefix_def)
    then have d: "drop (length ''.mp4'') (c # cs) = zs"
      by (metis append_eq_conv_conj)
    have p2: "prefix ''.mp4'' ((c # cs) @ ''.mp4'')"
      using True by (metis prefix_prefix)
    have d2: "drop (length ''.mp4'') ((c # cs) @ ''.mp4'') = zs @ ''.mp4''"
      by (metis zs append.assoc append_eq_conv_conj)
    have ih: "py_replace ''.mp4'' new (zs @ ''.mp4'') = py_replace ''.mp4'' new zs @ new"
      using "2.hyps"(2) [OF _ True] d by simp
    have l: "py_replace ''.mp4'' new (c # cs) = new @ py_replace ''.mp4'' new zs"
      using True d by (simp del: Cons_prefix_Cons)
    have r: "py_replace ''.mp4'' new ((c # cs) @ ''.mp4'') =
               new @ py_replace ''.mp4'' new (zs @ ''.mp4'')"
      using p2 d2 by (simp del: Cons_prefix_Cons)
    show ?thesis
      unfolding l r ih by simp
  next
    case False
    then have nf: "\<not> prefix ''.mp4'' ((c # cs) @ ''.mp4'')"
      by (rule no_straddle) simp
    have ih: "py_replace ''.mp4'' new (cs @ ''.mp4'') = py_replace ''.mp4'' new cs @ new"
      using "2.hyps"(3) [OF _ False] by simp
    have l: "py_replace ''.mp4'' new (c # cs) = c # py_replace ''.mp4'' new cs"
      using False by (simp del: Cons_prefix_Cons)
    have r: "py_replace ''.mp4'' new ((c # cs) @ ''.mp4'') =
               c # py_replace ''.mp4'' new (cs @ ''.mp4'')"
      using nf by (simp del: Cons_prefix_Cons)
    show ?thesis
      unfolding l r ih by simp
  qed
qed

lemma not_avi: "\<not> suffix ''.avi'' (stem @ ''.mp4'')"
proof
  assume "suffix ''.avi'' (stem @ ''.mp4'')"
  then obtain zs where "stem @ ''.mp4'' = zs @ ''.avi''"
    by (auto simp: suffix_def)
  then have "last (stem @ ''.mp4'') = last (zs @ ''.avi'')"
    by simp
  then show False by simp
qed

lemma mjpg_path: "candidate_path (stem @ ''.mp4'') ''MJPG'' = py_replace ''.mp4'' ''.avi'' stem @ ''.avi''"
  using not_avi [of stem] replace_mp4_suffix [of "''.avi''" stem]
  by (simp add: candidate_path_def)

lemma other_path: "c \<noteq> ''MJPG'' \<Longrightarrow> candidate_path p c = p"
  by (simp add: candidate_path_def)

section \<open>Properties of the transcode fallback and of closing\<close>

lemma reencode_try_Inr: "snd (reencode_try e p w) = Inr q \<Longrightarrow> q = p"
  by (auto simp: reencode_try_def Let_def split: if_splits sum.splits run_outcome.splits)

lemma reencode_escape:
  "import_escapes e \<Longrightarrow> reencode_to_h264 e p w = (w, Inl UnboundLocalError)"
  by (auto simp: reencode_to_h264_def import_escapes_def split: option.splits)

lemma reencode_returns_input:
  "snd (reencode_to_h264 e p w) = (if import_escapes e then Inl UnboundLocalError else Inr p)"
proof (cases "import_imageio e")
  case (Some x)
  then show ?thesis
    by (simp add: reencode_to_h264_def import_escapes_def)
next
  case None
  obtain w1 r where tr: "reencode_try e p w = (w1, r)"
    by (cases "reencode_try e p w")
  show ?thesis
  proof (cases r)
    case (Inl x)
    with None tr show ?thesis
      by (cases x) (simp_all add: reencode_to_h264_def import_escapes_def)
  next
    case (Inr q)
    with None tr reencode_try_Inr [of e p w q] show ?thesis
      by (simp add: reencode_to_h264_def import_escapes_def)
  qed
qed

lemma remove_if_exists_handles: "same_handles w (remove_if_exists p w)"
  by (simp add: same_handles_def remove_if_exists_def)

lemma os_replace_handles: "same_handles w (os_replace a b w)"
  by (simp add: same_handles_def os_replace_def)

lemma same_handles_trans: "same_handles a b \<Longrightarrow> same_handles b c \<Longrightarrow> same_handles a c"
  by (simp add: same_handles_def)

lemma reencode_try_handles: "same_handles w (fst (reencode_try e p w))"
proof -
  have run: "same_handles w (run_ffmpeg e cmd t w)" for cmd t
    by (simp add: same_handles_def run_ffmpeg_def)
  show ?thesis
    unfolding reencode_try_def Let_def
    by (auto split: sum.splits run_outcome.splits
        intro: same_handles_trans [OF run remove_if_exists_handles]
          same_handles_trans [OF run os_replace_handles] run
        simp: same_handles_def [of w w])
qed

lemma reencode_handles: "same_handles w (fst (reencode_to_h264 e p w))"
proof (cases "import_imageio e")
  case (Some x)
  then show ?thesis
    by (simp add: reencode_to_h264_def same_handles_def)
next
  case None
  obtain w1 r where tr: "reencode_try e p w = (w1, r)"
    by (cases "reencode_try e p w")
  with reencode_try_handles [of w e p] have h: "same_handles w w1"
    by simp
  show ?thesis
  proof (cases r)
    case (Inl x)
    with None tr h same_handles_trans [OF h remove_if_exists_handles] show ?thesis
      by (cases x) (simp_all add: reencode_to_h264_def)
  next
    case (Inr q)
    with None tr h show ?thesis
      by (simp add: reencode_to_h264_def)
  qed
qed

text \<open>Closing raises only through the import that leaves \<^verbatim>\<open>subprocess\<close> unbound.\<close>

lemma close_out_result:
  "snd (close_out e out op w) = Inr op
   \<or> snd (close_out e out op w) = Inl UnboundLocalError \<and> import_escapes e"
  by (cases "import_escapes e")
    (simp_all add: close_out_def Let_def split_beta reencode_returns_input
      split: option.splits)

lemma close_out_ok:
  "\<not> import_escapes e \<or> \<not> out \<Longrightarrow> snd (close_out e out op w) = Inr op"
  by (auto simp: close_out_def Let_def split_beta reencode_returns_input
      split: option.splits)

lemma close_out_keeps:
  "attempts (fst (close_out e out op w)) = attempts w
   \<and> written (fst (close_out e out op w)) = written w"
proof -
  have "attempts (fst (reencode_to_h264 e p w')) = attempts w'
      \<and> written (fst (reencode_to_h264 e p w')) = written w'" for p w'
    using reencode_handles [of w' e p] by (simp add: same_handles_def)
  then show ?thesis
    by (simp add: close_out_def Let_def split_beta split: option.splits sum.splits)
qed

lemma close_out_released:
  "cap_released (fst (close_out e out op w))
   \<and> (out \<longrightarrow> out_released (fst (close_out e out op w)))"
proof -
  have "cap_released (fst (reencode_to_h264 e p w')) = cap_released w'
      \<and> out_released (fst (reencode_to_h264 e p w')) = out_released w'" for p w'
    using reencode_handles [of w' e p] by (simp add: same_handles_def)
  then show ?thesis
    by (simp add: close_out_def Let_def split_beta split: option.splits sum.splits)
qed

section \<open>The shape of a job's result\<close>

lemma open_out_all_fail:
  assumes "output_path j = Some p" and "p \<noteq> []"
    and "\<forall>c\<in>set fourcc_options.
           writer_open e (candidate_path p (fst c)) (snd c) (cap_fps e)
             (cap_width e, cap_height e) \<noteq> Opened"
  shows "open_out e j = (Inl no_encoder_error, map (attempt_of p) fourcc_options)"
  using assms(1,2)
    negotiate_all_fail [of fourcc_options
      "\<lambda>path cc. writer_open e path cc (cap_fps e) (cap_width e, cap_height e)" p "[]",
      OF assms(3)]
  by (simp add: open_out_def)

lemma open_out_first_open:
  assumes "output_path j = Some p" and "p \<noteq> []" and "k < length fourcc_options"
    and "\<forall>c\<in>set (take k fourcc_options).
           writer_open e (candidate_path p (fst c)) (snd c) (cap_fps e)
             (cap_width e, cap_height e) \<noteq> Opened"
    and "writer_open e (candidate_path p (fst (fourcc_options ! k)))
           (snd (fourcc_options ! k)) (cap_fps e) (cap_width e, cap_height e) = Opened"
  shows "open_out e j =
           (Inr (True, Some (snd (attempt_of p (fourcc_options ! k)))),
            map (attempt_of p) (take (Suc k) fourcc_options))"
  using assms(1,2)
    negotiate_first_open [of k fourcc_options
      "\<lambda>path cc. writer_open e path cc (cap_fps e) (cap_width e, cap_height e)" p "[]",
      OF assms(3,4,5)]
  by (simp add: open_out_def split_beta)

lemma process_video_cases [case_names closed no_encoder loop_error close_error finished]:
  assumes "\<not> cap_isOpened e \<Longrightarrow>
             process_video e j =
               (ErrorDict (ValueError (''Could not open video: '' @ video_path j)) 0 0,
                start_world e) \<Longrightarrow> P"
    and "\<And>x tried. cap_isOpened e \<Longrightarrow> open_out e j = (Inl x, tried) \<Longrightarrow>
           process_video e j = (ErrorDict x 0 0, (start_world e)\<lparr>attempts := tried\<rparr>) \<Longrightarrow> P"
    and "\<And>out op tried st x. cap_isOpened e \<Longrightarrow> open_out e j = (Inr (out, op), tried) \<Longrightarrow>
           frame_loop e j out init_state (cap_frames e) = (st, Some x) \<Longrightarrow>
           process_video e j =
             (ErrorDict x 0 0, (start_world e)\<lparr>attempts := tried, written := out_written st\<rparr>)
           \<Longrightarrow> P"
    and "\<And>out op tried st w1. cap_isOpened e \<Longrightarrow> open_out e j = (Inr (out, op), tried) \<Longrightarrow>
           frame_loop e j out init_state (cap_frames e) = (st, None) \<Longrightarrow>
           close_out e out op ((start_world e)\<lparr>attempts := tried, written := out_written st\<rparr>) =
             (w1, Inl UnboundLocalError) \<Longrightarrow>
           import_escapes e \<Longrightarrow> out \<Longrightarrow>
           process_video e j = (ErrorDict UnboundLocalError 0 0, w1) \<Longrightarrow> P"
    and "\<And>out op tried st w1. cap_isOpened e \<Longrightarrow> open_out e j = (Inr (out, op), tried) \<Longrightarrow>
           frame_loop e j out init_state (cap_frames e) = (st, None) \<Longrightarrow>
           close_out e out op ((start_world e)\<lparr>attempts := tried, written := out_written st\<rparr>) =
             (w1, Inr op) \<Longrightarrow>
           process_video e j = (ResultDict (aggregate e st op w1), w1) \<Longrightarrow> P"
  shows P
proof (cases "cap_isOpened e")
  case False
  then show ?thesis
    using assms(1) by (simp add: process_video_def Let_def)
next
  case True
  obtain a tried where oo: "open_out e j = (a, tried)"
    by (cases "open_out e j")
  show ?thesis
  proof (cases a)
    case (Inl x)
    with True oo show ?thesis
      using assms(2) [of x tried] by (simp add: process_video_def Let_def)
  next
    case (Inr b)
    obtain out op where b: "b = (out, op)"
      by (cases b)
    obtain st r where fl: "frame_loop e j out init_state (cap_frames e) = (st, r)"
      by (cases "frame_loop e j out init_state (cap_frames e)")
    show ?thesis
    proof (cases r)
      case (Some x)
      with True oo Inr b fl show ?thesis
        using assms(3) [of out op tried st x] by (simp add: process_video_def Let_def)
    next
      case None
      define w where "w = (start_world e)\<lparr>attempts := tried, written := out_written st\<rparr>"
      obtain w1 c where co: "close_out e out op w = (w1, c)"
        by (cases "close_out e out op w")
      from close_out_result [of e out op w] co
      consider "c = Inr op" | "c = Inl UnboundLocalError" "import_escapes e"
        by auto
      then show ?thesis
      proof cases
        case 1
        have "process_video e j = (ResultDict (aggregate e st op w1), w1)"
          using True oo Inr b fl None co 1
          by (simp add: process_video_def Let_def w_def [symmetric])
        with True oo Inr b fl None co 1 show ?thesis
          using assms(5) [of out op tried st w1] by (simp add: w_def)
      next
        case 2
        have out: out
        proof (rule ccontr)
          assume "\<not> out"
          then have "snd (close_out e out op w) = Inr op"
            by (intro close_out_ok) simp
          with co 2 show False by simp
        qed
        have "process_video e j = (ErrorDict UnboundLocalError 0 0, w1)"
          using True oo Inr b fl None co 2
          by (simp add: process_video_def Let_def w_def [symmetric])
        with True oo Inr b fl None co 2 out show ?thesis
          using assms(4) [of out op tried st w1] by (simp add: w_def)
      qed
    qed
  qed
qed

lemma process_video_attempts:
  assumes "cap_isOpened e"
  shows "attempts (snd (process_video e j)) = snd (open_out e j)"
proof (cases rule: process_video_cases [where e = e and j = j])
  case closed
  with assms show ?thesis by simp
next
  case (no_encoder x tried)
  then show ?thesis by simp
next
  case (loop_error out op tried st x)
  then show ?thesis by simp
next
  case (close_error out op tried st w1)
  from close_error(4) have "w1 = fst (close_out e out op
      ((start_world e)\<lparr>attempts := tried, written := out_written st\<rparr>))"
    by simp
  then have "attempts w1 = tried"
    by (simp add: close_out_keeps)
  with close_error show ?thesis by simp
next
  case (finished out op tried st w1)
  from finished(4) have "w1 = fst (close_out e out op
      ((start_world e)\<lparr>attempts := tried, written := out_written st\<rparr>))"
    by simp
  then have "attempts w1 = tried"
    by (simp add: close_out_keeps)
  with finished show ?thesis by simp
qed

lemma process_video_output_video:
  assumes "fst (process_video e j) = ResultDict r"
  shows "\<exists>out. fst (open_out e j) = Inr (out, output_video r)"
proof (cases rule: process_video_cases [where e = e and j = j])
  case closed
  with assms show ?thesis by simp
next
  case (no_encoder x tried)
  with assms show ?thesis by simp
next
  case (loop_error out op tried st x)
  with assms show ?thesis by simp
next
  case (close_error out op tried st w1)
  with assms show ?thesis by simp
next
  case (finished out op tried st w1)
  with assms have "r = aggregate e st op w1" by simp
  then have "output_video r = op"
    by (simp add: aggregate_def Let_def)
  with finished show ?thesis by simp
qed

lemma process_video_no_encoder:
  assumes "cap_isOpened e" and "fst (open_out e j) = Inl x"
  shows "fst (process_video e j) = ErrorDict x 0 0 \<and> written (snd (process_video e j)) = []"
proof (cases rule: process_video_cases [where e = e and j = j])
  case closed
  with assms show ?thesis by simp
next
  case (no_encoder x tried)
  with assms show ?thesis by (simp add: start_world_def)
next
  case (loop_error out op tried st x)
  with assms show ?thesis by simp
next
  case (close_error out op tried st w1)
  with assms show ?thesis by simp
next
  case (finished out op tried st w1)
  with assms show ?thesis by simp
qed

text \<open>
  Claim C4. Over any ordered candidate list: when the first \<open>k\<close> candidates do not open
  and candidate \<open>k + 1\<close> does, the negotiation answers that candidate's name together with
  the path it was opened on, and the writers constructed are exactly those of the first
  \<open>k + 1\<close> candidates, in order. The path of a candidate is the output path, except for
  \<^verbatim>\<open>MJPG\<close> on a path that does not end in \<^verbatim>\<open>.avi\<close>, where \<^verbatim>\<open>.mp4\<close> becomes \<^verbatim>\<open>.avi\<close>. In
  \<^verbatim>\<open>process_video\<close> the same holds over \<^verbatim>\<open>fourcc_options\<close>, a full result reports the
  path of the selected candidate as \<^verbatim>\<open>output_video\<close>, and when no candidate opens the
  job returns the error of the \<^verbatim>\<open>ValueError\<close> raised at line 234 with no frame written.
\<close>

theorem codec_negotiation:
  "(k < length cands \<and>
    (\<forall>c\<in>set (take k cands). opn (candidate_path p (fst c)) (snd c) \<noteq> Opened) \<and>
    opn (candidate_path p (fst (cands ! k))) (snd (cands ! k)) = Opened
    \<longrightarrow> negotiate opn p cands [] =
          (Some (fst (cands ! k), candidate_path p (fst (cands ! k))),
           map (attempt_of p) (take (Suc k) cands)))
   \<and> candidate_path (stem @ ''.mp4'') ''MJPG'' = py_replace ''.mp4'' ''.avi'' stem @ ''.avi''
   \<and> (name \<noteq> ''MJPG'' \<longrightarrow> candidate_path p name = p)
   \<and> (cap_isOpened e \<and> output_path j = Some p \<and> p \<noteq> [] \<and> k < length fourcc_options \<and>
      (\<forall>c\<in>set (take k fourcc_options).
          writer_open e (candidate_path p (fst c)) (snd c) (cap_fps e)
            (cap_width e, cap_height e) \<noteq> Opened) \<and>
      writer_open e (candidate_path p (fst (fourcc_options ! k))) (snd (fourcc_options ! k))
        (cap_fps e) (cap_width e, cap_height e) = Opened
      \<longrightarrow> attempts (snd (process_video e j)) = map (attempt_of p) (take (Suc k) fourcc_options)
          \<and> (\<forall>r. fst (process_video e j) = ResultDict r \<longrightarrow>
                 output_video r = Some (candidate_path p (fst (fourcc_options ! k)))))
   \<and> (cap_isOpened e \<and> output_path j = Some p \<and> p \<noteq> [] \<and>
      (\<forall>c\<in>set fourcc_options.
          writer_open e (candidate_path p (fst c)) (snd c) (cap_fps e)
            (cap_width e, cap_height e) \<noteq> Opened)
      \<longrightarrow> fst (process_video e j) = ErrorDict no_encoder_error 0 0
          \<and> written (snd (process_video e j)) = []
          \<and> attempts (snd (process_video e j)) = map (attempt_of p) fourcc_options)"
proof (intro conjI impI allI)
  assume "k < length cands \<and>
    (\<forall>c\<in>set (take k cands). opn (candidate_path p (fst c)) (snd c) \<noteq> Opened) \<and>
    opn (candidate_path p (fst (cands ! k))) (snd (cands ! k)) = Opened"
  then show "negotiate opn p cands [] =
          (Some (fst (cands ! k), candidate_path p (fst (cands ! k))),
           map (attempt_of p) (take (Suc k) cands))"
    using negotiate_first_open [of k cands opn p "[]"] by (simp add: attempt_of_def)
next
  show "candidate_path (stem @ ''.mp4'') ''MJPG'' = py_replace ''.mp4'' ''.avi'' stem @ ''.avi''"
    by (rule mjpg_path)
next
  assume "name \<noteq> ''MJPG''"
  then show "candidate_path p name = p"
    by (rule other_path)
next
  assume a: "cap_isOpened e \<and> output_path j = Some p \<and> p \<noteq> [] \<and> k < length fourcc_options \<and>
      (\<forall>c\<in>set (take k fourcc_options).
          writer_open e (candidate_path p (fst c)) (snd c) (cap_fps e)
            (cap_width e, cap_height e) \<noteq> Opened) \<and>
      writer_open e (candidate_path p (fst (fourcc_options ! k))) (snd (fourcc_options ! k))
        (cap_fps e) (cap_width e, cap_height e) = Opened"
  then have oo: "open_out e j =
           (Inr (True, Some (snd (attempt_of p (fourcc_options ! k)))),
            map (attempt_of p) (take (Suc k) fourcc_options))"
    by (intro open_out_first_open) simp_all
  from a oo show "attempts (snd (process_video e j)) =
      map (attempt_of p) (take (Suc k) fourcc_options)"
    by (simp add: process_video_attempts)
  fix r
  assume "fst (process_video e j) = ResultDict r"
  from process_video_output_video [OF this] oo
  show "output_video r = Some (candidate_path p (fst (fourcc_options ! k)))"
    by (simp add: attempt_of_def)
next
  assume a: "cap_isOpened e \<and> output_path j = Some p \<and> p \<noteq> [] \<and>
      (\<forall>c\<in>set fourcc_options.
          writer_open e (candidate_path p (fst c)) (snd c) (cap_fps e)
            (cap_width e, cap_height e) \<noteq> Opened)"
  then have oo: "open_out e j = (Inl no_encoder_error, map (attempt_of p) fourcc_options)"
    by (intro open_out_all_fail) simp_all
  from a oo process_video_no_encoder [of e j no_encoder_error]
  show "fst (process_video e j) = ErrorDict no_encoder_error 0 0"
    and "written (snd (process_video e j)) = []"
    by simp_all
  from a oo show "attempts (snd (process_video e j)) = map (attempt_of p) fourcc_options"
    by (simp add: process_video_attempts)
qed

text \<open>With only \<^verbatim>\<open>MJPG\<close> opening, the third candidate is selected on \<^verbatim>\<open>out.avi\<close> after three
  constructions; with no encoder opening the job fails before any frame is written.\<close>

theorem codec_negotiation_witness:
  "negotiate only_mjpg ''out.mp4'' fourcc_options [] =
     (Some (''MJPG'', ''out.avi''),
      [(''mp4v'', ''out.mp4''), (''XVID'', ''out.mp4''), (''MJPG'', ''out.avi'')])
   \<and> attempts (snd (process_video studio clip_job)) =
       [(''mp4v'', ''out.mp4''), (''XVID'', ''out.mp4''), (''MJPG'', ''out.avi'')]
   \<and> fst (process_video no_codec clip_job) = ErrorDict no_encoder_error 0 0
   \<and> written (snd (process_video no_codec clip_job)) = []"
  using codec_negotiation [of 2 fourcc_options only_mjpg "''out.mp4''" "''out''" "''mp4v''"
      studio clip_job]
    codec_negotiation [of 2 fourcc_options only_mjpg "''out.mp4''" "''out''" "''mp4v''"
      no_codec clip_job]
  by (simp add: fourcc_options_def only_mjpg_def studio_def no_codec_def clip_job_def
      candidate_path_def attempt_of_def suffix_to_prefix)

section \<open>Properties of the frame loop\<close>

lemma frame_loop_append:
  "frame_loop e j out st (xs @ ys) =
     (case frame_loop e j out st xs of
        (st', Some x) \<Rightarrow> (st', Some x)
      | (st', None) \<Rightarrow> frame_loop e j out st' ys)"
proof (induction xs arbitrary: st)
  case Nil
  show ?case by simp
next
  case (Cons f fs)
  obtain s1 r where step: "loop_step e j out st f = (s1, r)"
    by (cases "loop_step e j out st f")
  show ?case
    by (cases r) (simp_all add: step Cons.IH)
qed

lemma loop_step_error_written:
  assumes "loop_step e j out st f = (st', Some x)"
  shows "out_written st' = out_written st"
  using assms
  by (auto simp: loop_step_def Let_def out_write_def split: if_splits option.splits)

lemma frame_loop_prefix:
  assumes "frame_loop e j out s fs = (st, r)"
  shows "\<exists>k s'. k \<le> length fs \<and> frame_loop e j out s (take k fs) = (s', None) \<and>
           out_written st = out_written s' \<and> (r = None \<longrightarrow> k = length fs \<and> s' = st)"
  using assms
proof (induction fs arbitrary: s)
  case Nil
  then show ?case by auto
next
  case (Cons f fs)
  obtain s1 r1 where step: "loop_step e j out s f = (s1, r1)"
    by (cases "loop_step e j out s f")
  show ?case
  proof (cases r1)
    case None
    with step Cons.prems have "frame_loop e j out s1 fs = (st, r)"
      by simp
    from Cons.IH [OF this] obtain k s' where
      k: "k \<le> length fs" "frame_loop e j out s1 (take k fs) = (s', None)"
        "out_written st = out_written s'" "r = None \<longrightarrow> k = length fs \<and> s' = st"
      by blast
    have "frame_loop e j out s (take (Suc k) (f # fs)) = (s', None)"
      using step None k(2) by simp
    with k show ?thesis
      by (intro exI [of _ "Suc k"] exI [of _ s']) simp
  next
    case (Some x)
    with step Cons.prems have st: "st = s1" "r = Some x"
      by simp_all
    from step Some have "out_written s1 = out_written s"
      using loop_step_error_written by blast
    with st show ?thesis
      by (intro exI [of _ 0] exI [of _ s]) simp
  qed
qed


lemma anchor_test:
  assumes "1 \<le> fi"
  shows "(int k mod fi = 0) = (k mod nat fi = 0)"
proof -
  have "int k mod int (nat fi) = int (k mod nat fi)"
    by (simp add: zmod_int)
  with assms show ?thesis by simp
qed

lemma anchor_index_Suc:
  assumes "0 < n"
  shows "anchor_index n (Suc k) = (if Suc k mod n = 0 then Suc k else anchor_index n k)"
proof (cases "Suc k mod n = 0")
  case True
  then have "Suc k div n * n = Suc k"
    by (metis add.right_neutral div_mult_mod_eq)
  with True show ?thesis
    by (simp add: anchor_index_def)
next
  case False
  then show ?thesis
    by (simp add: anchor_index_def div_Suc)
qed

lemma anchor_index_0 [simp]: "anchor_index n 0 = 0"
  by (simp add: anchor_index_def)

lemma draw_last_Nil: "draw_last fr [] = plain fr"
  by (simp add: draw_last_def plain_def)

lemma loop_inv_init: "loop_inv e j out 0 init_state"
  by (simp add: loop_inv_def init_state_def)

lemma loop_inv_step:
  assumes fi: "1 \<le> frame_interval j"
    and inv: "loop_inv e j out k st"
    and step: "loop_step e j out st (cap_frames e ! k) = (st', None)"
  shows "loop_inv e j out (Suc k) st'"
proof -
  let ?n = "nat (frame_interval j)"
  let ?fr = "cap_frames e ! k"
  have n: "0 < ?n" using fi by simp
  have nz: "frame_interval j \<noteq> 0" using fi by simp
  have fc: "frame_count st = k" using inv by (simp add: loop_inv_def)
  have test: "(int (Suc k) mod frame_interval j = 0) = (Suc k mod ?n = 0)"
    by (rule anchor_test [OF fi])
  have upt: "[1..<Suc (Suc k)] = [1..<Suc k] @ [Suc k]"
    by simp
  show ?thesis
  proof (cases "Suc k mod ?n = 0")
    case True
    define result where "result = anchor_result e j (Suc k)"
    define shown where
      "shown = (case annotated_frame result of None \<Rightarrow> plain ?fr | Some a \<Rightarrow> a)"
    define st2 where
      "st2 = st\<lparr>frame_count := Suc k,
               frame_detections := frame_detections st @ [result],
               total_persons := total_persons st + person_count result,
               last_detections := Some (detections result),
               last_annotated_frame := Some shown\<rparr>"
    have fps: "cap_fps e \<noteq> 0"
      using step True test nz fc by (auto simp: loop_step_def Let_def)
    have ls: "loop_step e j out st ?fr = (if out then out_write e st2 shown else (st2, None))"
      using True test nz fc fps
      by (simp add: loop_step_def Let_def st2_def shown_def result_def anchor_result_def)
    have st': "st' = (if out then st2\<lparr>out_written := out_written st2 @ [shown]\<rparr> else st2)"
      using step ls by (auto simp: out_write_def split: if_splits option.splits)
    have ex: "expected_frame e j (Suc k) = shown"
      using True by (simp add: expected_frame_def shown_def result_def Let_def)
    have ai: "anchor_index ?n (Suc k) = Suc k"
      using True n by (simp add: anchor_index_Suc)
    show ?thesis
      using inv True ex ai
      unfolding loop_inv_def st' st2_def upt
      by (simp add: result_def)
  next
    case False
    define im where
      "im = (case last_detections st of
               Some dets \<Rightarrow> if dets \<noteq> [] then draw_last ?fr dets else plain ?fr
             | None \<Rightarrow> plain ?fr)"
    define st1 where "st1 = st\<lparr>frame_count := Suc k\<rparr>"
    have ls: "loop_step e j out st ?fr = (if out then out_write e st1 im else (st1, None))"
      using False test nz fc
      by (auto simp: loop_step_def Let_def st1_def im_def split: option.splits)
    have st': "st' = (if out then st1\<lparr>out_written := out_written st1 @ [im]\<rparr> else st1)"
      using step ls by (auto simp: out_write_def split: if_splits option.splits)
    have ai: "anchor_index ?n (Suc k) = anchor_index ?n k"
      using False n by (simp add: anchor_index_Suc)
    have ex: "expected_frame e j (Suc k) = im"
      using False inv ai
      by (auto simp: expected_frame_def im_def Let_def loop_inv_def draw_last_Nil)
    show ?thesis
      using inv False ex ai
      unfolding loop_inv_def st' st1_def upt
      by simp
  qed
qed

lemma frame_loop_inv:
  assumes "1 \<le> frame_interval j" and "k \<le> length (cap_frames e)"
    and "frame_loop e j out init_state (take k (cap_frames e)) = (st, None)"
  shows "loop_inv e j out k st"
  using assms(2,3)
proof (induction k arbitrary: st)
  case 0
  then show ?case by (simp add: loop_inv_init)
next
  case (Suc k)
  then have k: "k < length (cap_frames e)" by simp
  obtain s0 r0 where pre: "frame_loop e j out init_state (take k (cap_frames e)) = (s0, r0)"
    by (cases "frame_loop e j out init_state (take k (cap_frames e))")
  have tk: "take (Suc k) (cap_frames e) = take k (cap_frames e) @ [cap_frames e ! k]"
    using k by (rule take_Suc_conv_app_nth)
  from Suc.prems(2) pre have r0: "r0 = None"
    unfolding tk frame_loop_append by (cases r0) simp_all
  obtain s1 r1 where step: "loop_step e j out s0 (cap_frames e ! k) = (s1, r1)"
    by (cases "loop_step e j out s0 (cap_frames e ! k)")
  from Suc.prems(2) pre r0 step have "r1 = None" "s1 = st"
    unfolding tk frame_loop_append by (cases r1; simp)+
  with step have st: "loop_step e j out s0 (cap_frames e ! k) = (st, None)"
    by simp
  have "loop_inv e j out k s0"
    using Suc.IH pre r0 k by simp
  with assms(1) show ?case
    using st by (rule loop_inv_step)
qed

lemma anchors_upto:
  assumes "0 < n"
  shows "filter (\<lambda>i. i mod n = 0) [1..<Suc k] = map (\<lambda>q. q * n) [1..<Suc (k div n)]"
proof (induction k)
  case 0
  then show ?case by simp
next
  case (Suc k)
  have upt: "[1..<Suc (Suc k)] = [1..<Suc k] @ [Suc k]"
    by simp
  show ?case
  proof (cases "Suc k mod n = 0")
    case True
    then have d: "Suc k div n = Suc (k div n)"
      by (simp add: div_Suc)
    from True have "Suc k div n * n = Suc k"
      by (metis add.right_neutral div_mult_mod_eq)
    with d have m: "Suc (k div n) * n = Suc k"
      by simp
    show ?thesis
      unfolding upt d using True Suc.IH m by simp
  next
    case False
    then have d: "Suc k div n = k div n"
      by (simp add: div_Suc)
    show ?thesis
      unfolding upt d using False Suc.IH by simp
  qed
qed

lemma loop_step_total:
  assumes fi: "1 \<le> frame_interval j"
    and inv: "loop_inv e j out k st"
    and fps: "cap_fps e \<noteq> 0"
    and wr: "out \<longrightarrow> write_raises e k = None"
  shows "\<exists>st'. loop_step e j out st fr = (st', None)"
proof -
  have len: "out \<longrightarrow> length (out_written st) = k"
    using inv by (simp add: loop_inv_def)
  have nz: "frame_interval j \<noteq> 0" using fi by simp
  show ?thesis
    using nz fps wr len
    by (auto simp: loop_step_def Let_def out_write_def split: option.splits)
qed

lemma frame_loop_total:
  assumes fi: "1 \<le> frame_interval j" and fps: "cap_fps e \<noteq> 0"
    and wr: "out \<longrightarrow> (\<forall>i<k. write_raises e i = None)"
    and k: "k \<le> length (cap_frames e)"
  shows "\<exists>st. frame_loop e j out init_state (take k (cap_frames e)) = (st, None)"
  using wr k
proof (induction k)
  case 0
  then show ?case by simp
next
  case (Suc k)
  then have k: "k < length (cap_frames e)" by simp
  from Suc obtain s0 where
    pre: "frame_loop e j out init_state (take k (cap_frames e)) = (s0, None)"
    by auto
  have inv: "loop_inv e j out k s0"
    using fi k pre by (intro frame_loop_inv) simp_all
  have "out \<longrightarrow> write_raises e k = None"
    using Suc.prems(1) by simp
  from loop_step_total [OF fi inv fps this]
  obtain s1 where "loop_step e j out s0 (cap_frames e ! k) = (s1, None)"
    by blast
  then have "frame_loop e j out init_state (take (Suc k) (cap_frames e)) = (s1, None)"
    unfolding take_Suc_conv_app_nth [OF k] frame_loop_append using pre by simp
  then show ?case by blast
qed

lemma anchor_index_greatest:
  assumes "0 < n"
  shows "anchor_index n i \<le> i \<and> anchor_index n i mod n = 0 \<and>
         (\<forall>b. b \<le> i \<and> b mod n = 0 \<longrightarrow> b \<le> anchor_index n i) \<and>
         (anchor_index n i = 0 \<longleftrightarrow> i < n)"
proof -
  have le: "anchor_index n i \<le> i"
    by (simp add: anchor_index_def)
  have md: "anchor_index n i mod n = 0"
    by (simp add: anchor_index_def)
  have gr: "b \<le> anchor_index n i" if "b \<le> i" "b mod n = 0" for b
  proof -
    from that(2) have "n dvd b"
      by (simp add: mod_0_imp_dvd)
    then have q: "b div n * n = b"
      by simp
    from that(1) have "b div n \<le> i div n"
      by (rule div_le_mono)
    then have "b div n * n \<le> i div n * n"
      by (rule mult_le_mono1)
    then show ?thesis
      unfolding q anchor_index_def .
  qed
  have z: "anchor_index n i = 0 \<longleftrightarrow> i < n"
    using assms by (simp add: anchor_index_def div_eq_0_iff)
  show ?thesis
  proof (intro conjI allI impI)
    show "anchor_index n i \<le> i" by (rule le)
    show "anchor_index n i mod n = 0" by (rule md)
    show "b \<le> anchor_index n i" if "b \<le> i \<and> b mod n = 0" for b
      by (rule gr) (use that in simp_all)
    show "(anchor_index n i = 0) = (i < n)" by (rule z)
  qed
qed

lemma draw_last_boxes:
  "draw_last fr (map (\<lambda>b. \<lparr>bbox = [bx1 b, by1 b, bx2 b, by2 b], confidence = bconf b,
                               class_id = None\<rparr>) boxes) =
     \<lparr>base = fr, rects = map rect_of_box boxes, labels = map label_of_box boxes\<rparr>"
  by (simp add: draw_last_def filter_map o_def rect_of_box_def label_of_box_def)

lemma rects_draw_last:
  "rects (draw_last fr (detections (process_video_frame m g c))) =
     (case annotated_frame (process_video_frame m g c) of None \<Rightarrow> [] | Some im \<Rightarrow> rects im)"
proof (cases "m g c")
  case (Inl x)
  then show ?thesis
    by (simp add: process_video_frame_def error_dict_def draw_last_Nil plain_def)
next
  case (Inr results)
  show ?thesis
  proof (cases "rows g * cols g = 0")
    case True
    with Inr show ?thesis
      by (simp add: process_video_frame_def density_of_def error_dict_def draw_last_Nil
          plain_def)
  next
    case False
    with Inr show ?thesis
      by (simp add: process_video_frame_def density_of_def Let_def draw_last_boxes)
  qed
qed

lemma process_video_written:
  assumes fi: "1 \<le> frame_interval j"
  shows "written (snd (process_video e j)) =
           map (expected_frame e j) [1..<Suc (length (written (snd (process_video e j))))]
         \<and> length (written (snd (process_video e j))) \<le> length (cap_frames e)"
proof -
  have loop: "out_written st = map (expected_frame e j) [1..<Suc (length (out_written st))]
      \<and> length (out_written st) \<le> length (cap_frames e)"
    if "frame_loop e j out init_state (cap_frames e) = (st, r)" for out st r
  proof -
    from frame_loop_prefix [OF that] obtain k s' where
      k: "k \<le> length (cap_frames e)"
        "frame_loop e j out init_state (take k (cap_frames e)) = (s', None)"
        "out_written st = out_written s'"
      by blast
    from frame_loop_inv [OF fi k(1,2)]
    have "out_written s' = (if out then map (expected_frame e j) [1..<Suc k] else [])"
      by (simp add: loop_inv_def)
    with k(1,3) show ?thesis
      by (cases out) simp_all
  qed
  show ?thesis
  proof (cases rule: process_video_cases [where e = e and j = j])
    case closed
    then show ?thesis by (simp add: start_world_def)
  next
    case (no_encoder x tried)
    then show ?thesis by (simp add: start_world_def)
  next
    case (loop_error out op tried st x)
    with loop [OF loop_error(3)] show ?thesis by simp
  next
    case (close_error out op tried st w1)
    from close_error(4) have "w1 = fst (close_out e out op
        ((start_world e)\<lparr>attempts := tried, written := out_written st\<rparr>))"
      by simp
    then have "written w1 = out_written st"
      by (simp add: close_out_keeps)
    with close_error loop [OF close_error(3)] show ?thesis by simp
  next
    case (finished out op tried st w1)
    from finished(4) have "w1 = fst (close_out e out op
        ((start_world e)\<lparr>attempts := tried, written := out_written st\<rparr>))"
      by simp
    then have "written w1 = out_written st"
      by (simp add: close_out_keeps)
    with finished loop [OF finished(3)] show ?thesis by simp
  qed
qed

text \<open>
  Claim C1. Let the frame interval be at least 1 and let \<open>i\<close> be the index (from 1) of a
  frame that was written and is not an anchor frame. Then the image written for it is
  the frame itself with the detections computed at the anchor frame \<open>a\<close>, the greatest
  multiple of the interval that is at most \<open>i\<close>, drawn on it, so that its rectangles are
  those drawn on the anchor frame; when no anchor frame has been reached (\<open>a = 0\<close>,
  that is \<open>i\<close> below the interval) the frame is written as it was read. No later frame
  enters: \<open>a\<close> is at most \<open>i\<close>.
\<close>

theorem propagation_invariant:
  assumes "1 \<le> frame_interval j"
    and "1 \<le> i" and "i \<le> length (written (snd (process_video e j)))"
    and "int i mod frame_interval j \<noteq> 0"
  shows "let a = anchor_index (nat (frame_interval j)) i;
             fr = cap_frames e ! (i - 1);
             im = written (snd (process_video e j)) ! (i - 1)
         in a \<le> i \<and> a mod nat (frame_interval j) = 0
            \<and> (\<forall>b. b \<le> i \<and> b mod nat (frame_interval j) = 0 \<longrightarrow> b \<le> a)
            \<and> (a = 0 \<longrightarrow> im = plain fr)
            \<and> (0 < a \<longrightarrow>
                 im = draw_last fr
                        (detections (process_video_frame (yolo e) (cap_frames e ! (a - 1))
                                       (conf_threshold j)))
                 \<and> rects im = rects (written (snd (process_video e j)) ! (a - 1)))"
proof -
  let ?n = "nat (frame_interval j)"
  let ?w = "written (snd (process_video e j))"
  let ?a = "anchor_index ?n i"
  have n: "0 < ?n" using assms(1) by simp
  have na: "i mod ?n \<noteq> 0"
    using assms(4) anchor_test [OF assms(1), of i] by simp
  note g = anchor_index_greatest [OF n, of i]
  have w: "?w = map (expected_frame e j) [1..<Suc (length ?w)]"
    using process_video_written [OF assms(1)] by blast
  have nth: "?w ! (m - 1) = expected_frame e j m" if "1 \<le> m" "m \<le> length ?w" for m
  proof -
    have "map (expected_frame e j) [1..<Suc (length ?w)] ! (m - 1) =
            expected_frame e j ([1..<Suc (length ?w)] ! (m - 1))"
      using that by (intro nth_map) simp
    also have "[1..<Suc (length ?w)] ! (m - 1) = 1 + (m - 1)"
      by (rule nth_upt) (use that in simp)
    also have "1 + (m - 1) = m"
      using that by simp
    finally show ?thesis using w by simp
  qed
  have im: "?w ! (i - 1) = expected_frame e j i"
    using assms(2,3) by (rule nth)
  have dets: "detections (anchor_result e j ?a) =
      detections (process_video_frame (yolo e) (cap_frames e ! (?a - 1)) (conf_threshold j))"
    by (simp add: anchor_result_def)
  have zero: "?w ! (i - 1) = plain (cap_frames e ! (i - 1))" if "?a = 0"
    unfolding im expected_frame_def Let_def using na that by simp
  have pos: "?w ! (i - 1) = draw_last (cap_frames e ! (i - 1))
        (detections (process_video_frame (yolo e) (cap_frames e ! (?a - 1)) (conf_threshold j)))
      \<and> rects (?w ! (i - 1)) = rects (?w ! (?a - 1))" if a: "0 < ?a"
  proof -
    have eq: "?w ! (i - 1) = draw_last (cap_frames e ! (i - 1))
        (detections (process_video_frame (yolo e) (cap_frames e ! (?a - 1)) (conf_threshold j)))"
      unfolding im expected_frame_def Let_def dets using na a by simp
    have "?a \<le> length ?w"
      using g assms(3) by linarith
    with a have "?w ! (?a - 1) = expected_frame e j ?a"
      by (intro nth) simp_all
    also have "\<dots> = (case annotated_frame (anchor_result e j ?a) of
                      None \<Rightarrow> plain (cap_frames e ! (?a - 1)) | Some im \<Rightarrow> im)"
      unfolding expected_frame_def Let_def using g by simp
    finally have "rects (?w ! (?a - 1)) =
        (case annotated_frame (process_video_frame (yolo e) (cap_frames e ! (?a - 1))
                (conf_threshold j)) of
           None \<Rightarrow> [] | Some im \<Rightarrow> rects im)"
      by (simp add: anchor_result_def plain_def split: option.splits)
    with eq show ?thesis
      by (simp add: rects_draw_last)
  qed
  have g1: "?a \<le> i"
    by (rule g [THEN conjunct1])
  have g2: "?a mod ?n = 0"
    by (rule g [THEN conjunct2, THEN conjunct1])
  have g3: "\<forall>b. b \<le> i \<and> b mod ?n = 0 \<longrightarrow> b \<le> ?a"
    by (rule g [THEN conjunct2, THEN conjunct2, THEN conjunct1])
  show ?thesis
    unfolding Let_def
  proof (intro conjI impI)
    show "?a \<le> i" by (rule g1)
    show "?a mod ?n = 0" by (rule g2)
    show "\<forall>b. b \<le> i \<and> b mod ?n = 0 \<longrightarrow> b \<le> ?a" by (rule g3)
    show "?w ! (i - 1) = plain (cap_frames e ! (i - 1))" if "?a = 0"
      using that by (rule zero)
    show "?w ! (i - 1) = draw_last (cap_frames e ! (i - 1))
        (detections (process_video_frame (yolo e) (cap_frames e ! (?a - 1)) (conf_threshold j)))"
      if "0 < ?a" using pos [OF that] by (rule conjunct1)
    show "rects (?w ! (i - 1)) = rects (?w ! (?a - 1))"
      if "0 < ?a" using pos [OF that] by (rule conjunct2)
  qed
qed

text \<open>The run of the three-frame job, evaluated: frame 1 is written as read, frame 2 is an
  anchor frame, frame 3 carries the box found on frame 2.\<close>

lemmas job_defs = process_video_def open_out_def start_world_def close_out_def aggregate_def
  loop_step_def out_write_def init_state_def process_video_frame_def density_of_def
  count_of_def py_int_def rect_of_box_def label_of_box_def draw_last_def plain_def
  candidate_path_def fourcc_options_def suffix_to_prefix
  reencode_to_h264_def reencode_try_def h264_temp_path_def remove_if_exists_def os_replace_def
  ffmpeg_cmd_def run_ffmpeg_def Let_def

lemma studio_world:
  "snd (process_video studio clip_job) =
     \<lparr>cap_released = True, out_released = True,
       attempts = [(''mp4v'', ''out.mp4''), (''XVID'', ''out.mp4''), (''MJPG'', ''out.avi'')],
       written =
         [\<lparr>base = vga, rects = [], labels = []\<rparr>,
          \<lparr>base = vga, rects = [(10, 20, 110, 220)], labels = []\<rparr>,
          \<lparr>base = vga, rects = [(10, 20, 110, 220)], labels = [(9 / 10, 10, 10)]\<rparr>],
       ffmpeg_runs = [], disk = [''out.avi'' \<mapsto> 1000]\<rparr>"
  by (simp add: job_defs studio_def clip_job_def only_mjpg_def one_person_def vga_def)

lemma studio_result:
  "\<exists>r. fst (process_video studio clip_job) = ResultDict r
       \<and> total_frames r = 3 \<and> processed_frames r = 1
       \<and> map frame_number (returned_detections r) = [Some 2]
       \<and> map person_count (returned_detections r) = [1]
       \<and> output_video r = Some ''out.avi'' \<and> output_exists r"
  by (simp add: job_defs studio_def clip_job_def only_mjpg_def one_person_def vga_def)

theorem propagation_invariant_witness:
  "written (snd (process_video studio clip_job)) ! 2 =
     draw_last vga (detections (process_video_frame one_person vga (1 / 4)))
   \<and> rects (written (snd (process_video studio clip_job)) ! 2) =
       rects (written (snd (process_video studio clip_job)) ! 1)
   \<and> written (snd (process_video studio clip_job)) ! 0 = plain vga"
proof -
  have len: "length (written (snd (process_video studio clip_job))) = 3"
    by (simp add: studio_world)
  have fr: "cap_frames studio = [vga, vga, vga]" "yolo studio = one_person"
    by (simp_all add: studio_def)
  have j: "frame_interval clip_job = 2" "conf_threshold clip_job = 1 / 4"
    by (simp_all add: clip_job_def)
  have a3: "anchor_index 2 3 = 2" and a1: "anchor_index 2 (Suc 0) = 0"
    by (simp_all add: anchor_index_def)
  from propagation_invariant [where j = clip_job and i = 3 and e = studio]
  have "written (snd (process_video studio clip_job)) ! 2 =
          draw_last vga (detections (process_video_frame one_person vga (1 / 4)))
        \<and> rects (written (snd (process_video studio clip_job)) ! 2) =
            rects (written (snd (process_video studio clip_job)) ! 1)"
    by (auto simp: len fr j a3 Let_def)
  moreover
  from propagation_invariant [where j = clip_job and i = 1 and e = studio]
  have "written (snd (process_video studio clip_job)) ! 0 = plain vga"
    by (auto simp: len fr j a1 Let_def)
  ultimately show ?thesis by blast
qed

section \<open>Counting and aggregating the frame results\<close>

lemma frame_number_anchor: "frame_number (anchor_result e j a) = Some a"
  by (simp add: anchor_result_def)

lemma loop_results:
  assumes fi: "1 \<le> frame_interval j"
    and run: "frame_loop e j out init_state (cap_frames e) = (st, None)"
  shows "frame_detections st =
           map (\<lambda>q. anchor_result e j (q * nat (frame_interval j)))
             [1..<Suc (length (cap_frames e) div nat (frame_interval j))]
         \<and> total_persons st = sum_list (map person_count (frame_detections st))"
proof -
  have n: "0 < nat (frame_interval j)" using fi by simp
  have "loop_inv e j out (length (cap_frames e)) st"
    using fi run by (intro frame_loop_inv) simp_all
  then have fd: "frame_detections st =
        map (anchor_result e j)
          (filter (\<lambda>i. i mod nat (frame_interval j) = 0) [1..<Suc (length (cap_frames e))])"
    and tp: "total_persons st = sum_list (map person_count (frame_detections st))"
    unfolding loop_inv_def by blast+
  from fd have "frame_detections st =
        map (\<lambda>q. anchor_result e j (q * nat (frame_interval j)))
          [1..<Suc (length (cap_frames e) div nat (frame_interval j))]"
    unfolding anchors_upto [OF n] map_map comp_def .
  with tp show ?thesis by (rule conjI [rotated])
qed

text \<open>
  Claim C2. For a frame interval of at least 1 and a source that yields \<open>N\<close> frames, a
  job that returns its result has produced exactly \<open>N div interval\<close> frame results, and
  \<^verbatim>\<open>processed_frames\<close> is that number: the list collected by the loop holds, in order, the
  result of the detection on frame \<open>interval\<close>, on frame \<open>2 * interval\<close> and so on, each
  carrying its frame index counted from 1, and no other. (The list returned with the
  result is its first 100 entries.)
\<close>

theorem frame_results_count:
  assumes "1 \<le> frame_interval j" and "fst (process_video e j) = ResultDict r"
  shows "processed_frames r = length (cap_frames e) div nat (frame_interval j)
         \<and> (\<exists>out st. frame_loop e j out init_state (cap_frames e) = (st, None)
               \<and> length (frame_detections st) =
                   length (cap_frames e) div nat (frame_interval j)
               \<and> frame_detections st =
                   map (\<lambda>q. anchor_result e j (q * nat (frame_interval j)))
                     [1..<Suc (length (cap_frames e) div nat (frame_interval j))]
               \<and> map frame_number (frame_detections st) =
                   map (\<lambda>q. Some (q * nat (frame_interval j)))
                     [1..<Suc (length (cap_frames e) div nat (frame_interval j))]
               \<and> returned_detections r = take 100 (frame_detections st))"
proof (cases rule: process_video_cases [where e = e and j = j])
  case closed
  with assms(2) show ?thesis by simp
next
  case (no_encoder x tried)
  with assms(2) show ?thesis by simp
next
  case (loop_error out op tried st x)
  with assms(2) show ?thesis by simp
next
  case (close_error out op tried st w1)
  with assms(2) show ?thesis by simp
next
  case (finished out op tried st w1)
  with assms(2) have r: "r = aggregate e st op w1" by simp
  note lr = loop_results [OF assms(1) finished(3)]
  then have all: "frame_detections st =
      map (\<lambda>q. anchor_result e j (q * nat (frame_interval j)))
        [1..<Suc (length (cap_frames e) div nat (frame_interval j))]"
    by (rule conjunct1)
  have fd: "map frame_number (frame_detections st) =
              map (\<lambda>q. Some (q * nat (frame_interval j)))
                [1..<Suc (length (cap_frames e) div nat (frame_interval j))]"
    using lr by (simp add: comp_def frame_number_anchor)
  then have len: "length (frame_detections st) =
      length (cap_frames e) div nat (frame_interval j)"
    by (metis length_map length_upt diff_Suc_1)
  have pf: "processed_frames r = length (frame_detections st)"
    unfolding r by (simp add: aggregate_def Let_def)
  have rd: "returned_detections r = take 100 (frame_detections st)"
    unfolding r by (simp add: aggregate_def Let_def)
  show ?thesis
    unfolding pf using len all fd finished(3) rd by blast
qed

text \<open>The three-frame source read at interval 2: one frame result, that of frame 2.\<close>

theorem frame_results_count_witness:
  "\<exists>r. fst (process_video studio clip_job) = ResultDict r \<and> processed_frames r = 1
       \<and> (\<exists>out st. frame_loop studio clip_job out init_state (cap_frames studio) = (st, None)
              \<and> length (frame_detections st) = 1
              \<and> map frame_number (frame_detections st) = [Some 2])"
proof -
  have fi: "1 \<le> frame_interval clip_job"
    by (simp add: clip_job_def)
  from studio_result obtain r where r: "fst (process_video studio clip_job) = ResultDict r"
    by blast
  have n: "length (cap_frames studio) div nat (frame_interval clip_job) = 1"
    by (simp add: studio_def clip_job_def)
  have two: "map (\<lambda>q. Some (q * nat (frame_interval clip_job))) [1..<Suc 1] = [Some 2]"
    by (simp add: clip_job_def)
  from frame_results_count [OF fi r] obtain out st where
    pf: "processed_frames r = length (cap_frames studio) div nat (frame_interval clip_job)"
    and run: "frame_loop studio clip_job out init_state (cap_frames studio) = (st, None)"
    and len: "length (frame_detections st) =
      length (cap_frames studio) div nat (frame_interval clip_job)"
    and fd: "map frame_number (frame_detections st) =
      map (\<lambda>q. Some (q * nat (frame_interval clip_job)))
        [1..<Suc (length (cap_frames studio) div nat (frame_interval clip_job))]"
    by blast
  from pf len fd have one: "processed_frames r = 1" "length (frame_detections st) = 1"
    "map frame_number (frame_detections st) = [Some 2]"
    unfolding n two by simp_all
  show ?thesis
    by (rule exI [of _ r], intro conjI, rule r, rule one(1), rule exI [of _ out],
        rule exI [of _ st], intro conjI, rule run, rule one(2), rule one(3))
qed

lemma loop_step_total_persons:
  assumes "total_persons st = sum_list (map person_count (frame_detections st))"
    and "loop_step e j out st fr = (st', r)"
  shows "total_persons st' = sum_list (map person_count (frame_detections st'))"
  using assms
  by (auto simp: loop_step_def Let_def out_write_def split: if_splits option.splits)

lemma frame_loop_total_persons:
  assumes "total_persons st = sum_list (map person_count (frame_detections st))"
    and "frame_loop e j out st frs = (st', r)"
  shows "total_persons st' = sum_list (map person_count (frame_detections st'))"
  using assms
proof (induction frs arbitrary: st)
  case Nil
  then show ?case by simp
next
  case (Cons fr frs)
  obtain s1 r1 where step: "loop_step e j out st fr = (s1, r1)"
    by (cases "loop_step e j out st fr")
  from loop_step_total_persons [OF Cons.prems(1) step]
  have s1: "total_persons s1 = sum_list (map person_count (frame_detections s1))" .
  show ?case
  proof (cases r1)
    case None
    with step Cons.prems(2) have "frame_loop e j out s1 frs = (st', r)"
      by simp
    from Cons.IH [OF s1 this] show ?thesis .
  next
    case (Some x)
    with step Cons.prems(2) have "st' = s1" by simp
    with s1 show ?thesis by simp
  qed
qed

lemma result_dict_shape:
  assumes "fst (process_video e j) = ResultDict r"
  obtains out op st w1 where "cap_isOpened e" and "fst (open_out e j) = Inr (out, op)"
    and "frame_loop e j out init_state (cap_frames e) = (st, None)"
    and "r = aggregate e st op w1" and "snd (process_video e j) = w1"
proof (cases rule: process_video_cases [where e = e and j = j])
  case closed
  with assms show ?thesis by simp
next
  case (no_encoder x tried)
  with assms show ?thesis by simp
next
  case (loop_error out op tried st x)
  with assms show ?thesis by simp
next
  case (close_error out op tried st w1)
  with assms show ?thesis by simp
next
  case (finished out op tried st w1)
  with assms that [of out op st w1] show ?thesis by simp
qed

text \<open>A job whose source opens, whose encoder opens when an output path is given and
  whose loop runs to its end returns its result, unless the transcode pass raises.\<close>

lemma process_video_finishes:
  assumes "cap_isOpened e" and "fst (open_out e j) = Inr (out, op)"
    and "frame_loop e j out init_state (cap_frames e) = (st, None)"
    and "\<not> import_escapes e \<or> \<not> out"
  shows "\<exists>w1. process_video e j = (ResultDict (aggregate e st op w1), w1)"
proof (cases rule: process_video_cases [where e = e and j = j])
  case closed
  with assms show ?thesis by simp
next
  case (no_encoder x tried)
  with assms show ?thesis by simp
next
  case (loop_error out' op' tried st' x)
  with assms show ?thesis by simp
next
  case (close_error out' op' tried st' w1)
  with assms show ?thesis by simp
next
  case (finished out' op' tried st' w1)
  with assms show ?thesis by simp
qed

lemma aggregate_averages:
  assumes "total_persons st = sum_list (map person_count (frame_detections st))"
  shows "average_person_count (aggregate e st op w) = average_count (frame_detections st)
         \<and> average_density (aggregate e st op w) = average_density_of e (frame_detections st)"
  using assms by (simp add: aggregate_def average_count_def average_density_of_def Let_def)

lemma average_count_Nil: "average_count [] = 0"
  by (simp add: average_count_def py_round2_0)

lemma average_density_of_Nil: "average_density_of e [] = 0"
  by (simp add: average_density_of_def py_round2_0)

text \<open>
  Claim C9, as the code has it. For every job that returns its result, with \<open>ds\<close> the
  list of all frame results collected by the loop: \<^verbatim>\<open>processed_frames\<close> is the length of
  \<open>ds\<close>, \<^verbatim>\<open>average_person_count\<close> is \<^verbatim>\<open>round(sum(person_count) / len(ds), 2)\<close> and
  \<^verbatim>\<open>average_density\<close> is \<^verbatim>\<open>round(sum(density_percentage) / len(ds), 2)\<close>, evaluated in
  doubles and rounded to two decimals, so in general neither is the quotient itself; both
  are 0 when \<open>ds\<close> is empty; \<^verbatim>\<open>total_frames\<close> is the frame count the source reports. A
  source that reports 0 frames and delivers none yields the result with all four numbers
  0, provided an encoder opens when an output path is given and the transcode pass does
  not raise (no writer was opened, or the import of \<^verbatim>\<open>imageio_ffmpeg\<close> succeeds or fails
  with an \<^verbatim>\<open>ImportError\<close>).
\<close>

theorem aggregator_averages:
  "(\<forall>r. fst (process_video e j) = ResultDict r \<longrightarrow>
      total_frames r = cap_frame_count e
      \<and> (\<exists>out st. frame_loop e j out init_state (cap_frames e) = (st, None)
            \<and> processed_frames r = length (frame_detections st)
            \<and> average_person_count r =
                py_round2 (if frame_detections st = [] then 0
                           else int_truediv
                                  (int (sum_list (map person_count (frame_detections st))))
                                  (int (length (frame_detections st))))
            \<and> average_density r =
                py_round2 (if frame_detections st = [] then 0
                           else float_div
                                  (float_sum e (map density_percentage (frame_detections st)))
                                  (round_double (of_nat (length (frame_detections st)))))
            \<and> (frame_detections st = [] \<longrightarrow>
                   average_person_count r = 0 \<and> average_density r = 0)))
   \<and> (cap_isOpened e \<and> cap_frames e = [] \<and> cap_frame_count e = 0
      \<and> (\<exists>out op. fst (open_out e j) = Inr (out, op) \<and> (\<not> import_escapes e \<or> \<not> out))
      \<longrightarrow> (\<exists>r. fst (process_video e j) = ResultDict r \<and> total_frames r = 0
               \<and> processed_frames r = 0 \<and> average_person_count r = 0
               \<and> average_density r = 0))"
proof (intro conjI allI impI)
  fix r
  assume res: "fst (process_video e j) = ResultDict r"
  from res obtain out op st w1 where
    run: "frame_loop e j out init_state (cap_frames e) = (st, None)"
    and r: "r = aggregate e st op w1"
    by (rule result_dict_shape)
  show "total_frames r = cap_frame_count e"
    unfolding r by (simp add: aggregate_def Let_def)
  have tp: "total_persons st = sum_list (map person_count (frame_detections st))"
    using run by (rule frame_loop_total_persons [rotated]) (simp add: init_state_def)
  have pf: "processed_frames r = length (frame_detections st)"
    unfolding r by (simp add: aggregate_def Let_def)
  note avg = aggregate_averages [OF tp, of e op w1, folded r]
  have zero: "average_person_count r = 0 \<and> average_density r = 0"
    if "frame_detections st = []"
    using avg that by (simp add: average_count_Nil average_density_of_Nil)
  from run pf avg zero
  show "\<exists>out st. frame_loop e j out init_state (cap_frames e) = (st, None)
            \<and> processed_frames r = length (frame_detections st)
            \<and> average_person_count r =
                py_round2 (if frame_detections st = [] then 0
                           else int_truediv
                                  (int (sum_list (map person_count (frame_detections st))))
                                  (int (length (frame_detections st))))
            \<and> average_density r =
                py_round2 (if frame_detections st = [] then 0
                           else float_div
                                  (float_sum e (map density_percentage (frame_detections st)))
                                  (round_double (of_nat (length (frame_detections st)))))
            \<and> (frame_detections st = [] \<longrightarrow>
                   average_person_count r = 0 \<and> average_density r = 0)"
    unfolding average_count_def average_density_of_def by blast
next
  assume a: "cap_isOpened e \<and> cap_frames e = [] \<and> cap_frame_count e = 0
      \<and> (\<exists>out op. fst (open_out e j) = Inr (out, op) \<and> (\<not> import_escapes e \<or> \<not> out))"
  then obtain out op where oo: "fst (open_out e j) = Inr (out, op)"
    and ok: "\<not> import_escapes e \<or> \<not> out"
    by blast
  from a have run: "frame_loop e j out init_state (cap_frames e) = (init_state, None)"
    by simp
  from a have "cap_isOpened e" by simp
  from process_video_finishes [OF this oo run ok]
  obtain w1 where "process_video e j = (ResultDict (aggregate e init_state op w1), w1)"
    by blast
  moreover have "total_frames (aggregate e init_state op w1) = 0"
    "processed_frames (aggregate e init_state op w1) = 0"
    "average_person_count (aggregate e init_state op w1) = 0"
    "average_density (aggregate e init_state op w1) = 0"
    using a by (simp_all add: aggregate_def init_state_def Let_def py_round2_0)
  ultimately show "\<exists>r. fst (process_video e j) = ResultDict r \<and> total_frames r = 0
               \<and> processed_frames r = 0 \<and> average_person_count r = 0
               \<and> average_density r = 0"
    by simp
qed

lemma lone_run:
  "\<exists>r. fst (process_video lone_env every_frame) = ResultDict r \<and> processed_frames r = 3
       \<and> map person_count (returned_detections r) = [1, 0, 0]
       \<and> average_person_count r = py_round2 (int_truediv 1 3)"
  by (simp add: job_defs lone_env_def studio_def every_frame_def marked_only_def one_person_def
      vga_def marked_def)

text \<open>The source without frames, and the three-frame source whose first frame alone shows
  a person.\<close>

theorem aggregator_averages_witness:
  "(\<exists>r. fst (process_video empty_env every_frame) = ResultDict r \<and> total_frames r = 0
        \<and> processed_frames r = 0 \<and> average_person_count r = 0 \<and> average_density r = 0)
   \<and> (\<exists>r out st. fst (process_video lone_env every_frame) = ResultDict r
        \<and> frame_loop lone_env every_frame out init_state (cap_frames lone_env) = (st, None)
        \<and> processed_frames r = length (frame_detections st)
        \<and> average_person_count r =
            py_round2 (if frame_detections st = [] then 0
                       else int_truediv
                              (int (sum_list (map person_count (frame_detections st))))
                              (int (length (frame_detections st)))))"
proof -
  have oo: "fst (open_out empty_env every_frame) = Inr (False, None)"
    by (simp add: open_out_def every_frame_def)
  have "cap_isOpened empty_env" "cap_frames empty_env = []" "cap_frame_count empty_env = 0"
    by (simp_all add: empty_env_def studio_def)
  with oo have pre: "cap_isOpened empty_env \<and> cap_frames empty_env = [] \<and>
      cap_frame_count empty_env = 0 \<and>
      (\<exists>out op. fst (open_out empty_env every_frame) = Inr (out, op)
          \<and> (\<not> import_escapes empty_env \<or> \<not> out))"
    by blast
  from aggregator_averages [of empty_env every_frame] pre
  have first: "\<exists>r. fst (process_video empty_env every_frame) = ResultDict r \<and>
      total_frames r = 0 \<and> processed_frames r = 0 \<and> average_person_count r = 0 \<and>
      average_density r = 0"
    by blast
  from lone_run obtain r where r: "fst (process_video lone_env every_frame) = ResultDict r"
    by blast
  from aggregator_averages [of lone_env every_frame] r
  have "\<exists>out st. frame_loop lone_env every_frame out init_state (cap_frames lone_env) = (st, None)
        \<and> processed_frames r = length (frame_detections st)
        \<and> average_person_count r =
            py_round2 (if frame_detections st = [] then 0
                       else int_truediv
                              (int (sum_list (map person_count (frame_detections st))))
                              (int (length (frame_detections st))))"
    by blast
  with r first show ?thesis by blast
qed

text \<open>Three frame results with person counts 1, 0 and 0: the code reports the double
  nearest to 0.33, which is neither a third nor the double nearest to a third.\<close>

theorem aggregator_averages_counterexample:
  "\<exists>r. fst (process_video lone_env every_frame) = ResultDict r \<and> processed_frames r = 3
       \<and> map person_count (returned_detections r) = [1, 0, 0]
       \<and> average_person_count r = round_double (33 / 100)
       \<and> average_person_count r \<noteq> (1 + 0 + 0) / 3
       \<and> average_person_count r \<noteq> int_truediv (1 + 0 + 0) 3"
proof -
  have v: "py_round2 (int_truediv 1 3) = round_double (33 / 100)"
    by (simp add: double_eval)
  have ne: "round_double (33 / 100) \<noteq> (1 + 0 + 0) / 3"
    "round_double (33 / 100) \<noteq> int_truediv (1 + 0 + 0) 3"
    by (simp_all add: double_eval)
  from lone_run v ne show ?thesis
    by auto
qed

text \<open>
  Claim C10. In every full result the list \<^verbatim>\<open>frame_detections\<close> is the first 100 of
  the frame results collected by the loop, in their order, so it has
  \<open>min processed_frames 100\<close> entries, while \<^verbatim>\<open>processed_frames\<close> counts all of them and
  both averages (\<open>average_count\<close>, \<open>average_density_of\<close>) range over all of them; with
  more than 100 frame results the list returned is a strict prefix of the list
  aggregated.
\<close>

theorem response_truncation:
  "\<forall>r. fst (process_video e j) = ResultDict r \<longrightarrow>
      (\<exists>out st. frame_loop e j out init_state (cap_frames e) = (st, None)
         \<and> returned_detections r = take 100 (frame_detections st)
         \<and> length (returned_detections r) = min (processed_frames r) 100
         \<and> processed_frames r = length (frame_detections st)
         \<and> average_person_count r = average_count (frame_detections st)
         \<and> average_density r = average_density_of e (frame_detections st)
         \<and> prefix (returned_detections r) (frame_detections st)
         \<and> (100 < processed_frames r \<longrightarrow>
              strict_prefix (returned_detections r) (frame_detections st)))"
proof (intro allI impI)
  fix r
  assume res: "fst (process_video e j) = ResultDict r"
  from res obtain out op st w1 where
    run: "frame_loop e j out init_state (cap_frames e) = (st, None)"
    and r: "r = aggregate e st op w1"
    by (rule result_dict_shape)
  have tp: "total_persons st = sum_list (map person_count (frame_detections st))"
    using run by (rule frame_loop_total_persons [rotated]) (simp add: init_state_def)
  have pf: "processed_frames r = length (frame_detections st)"
    unfolding r by (simp add: aggregate_def Let_def)
  have rd: "returned_detections r = take 100 (frame_detections st)"
    unfolding r by (simp add: aggregate_def Let_def)
  have len: "length (returned_detections r) = min (processed_frames r) 100"
    unfolding rd pf by simp
  have pre: "prefix (returned_detections r) (frame_detections st)"
    unfolding rd by (rule take_is_prefix)
  have strict: "strict_prefix (returned_detections r) (frame_detections st)"
    if "100 < processed_frames r"
  proof -
    from that have "length (returned_detections r) \<noteq> length (frame_detections st)"
      unfolding len pf by simp
    then have "returned_detections r \<noteq> frame_detections st"
      by auto
    with pre show ?thesis
      by (simp add: strict_prefix_def)
  qed
  note avg = aggregate_averages [OF tp, of e op w1, folded r]
  from run rd len pf avg pre strict
  show "\<exists>out st. frame_loop e j out init_state (cap_frames e) = (st, None)
         \<and> returned_detections r = take 100 (frame_detections st)
         \<and> length (returned_detections r) = min (processed_frames r) 100
         \<and> processed_frames r = length (frame_detections st)
         \<and> average_person_count r = average_count (frame_detections st)
         \<and> average_density r = average_density_of e (frame_detections st)
         \<and> prefix (returned_detections r) (frame_detections st)
         \<and> (100 < processed_frames r \<longrightarrow>
              strict_prefix (returned_detections r) (frame_detections st))"
    by blast
qed

text \<open>A source of 101 frames read frame by frame: 101 frame results are counted and
  averaged, the first 100 are returned.\<close>

theorem response_truncation_witness:
  "\<exists>r out st.
     fst (process_video long_env every_frame) = ResultDict r \<and> processed_frames r = 101
     \<and> frame_loop long_env every_frame out init_state (cap_frames long_env) = (st, None)
     \<and> length (frame_detections st) = 101
     \<and> length (returned_detections r) = 100
     \<and> average_person_count r = average_count (frame_detections st)
     \<and> strict_prefix (returned_detections r) (frame_detections st)"
proof -
  have fi: "1 \<le> frame_interval every_frame"
    by (simp add: every_frame_def)
  have fps: "cap_fps long_env \<noteq> 0" and opened: "cap_isOpened long_env"
    and n: "length (cap_frames long_env) = 101"
    by (simp_all add: long_env_def studio_def)
  have oo: "fst (open_out long_env every_frame) = Inr (False, None)"
    by (simp add: open_out_def every_frame_def)
  have "\<exists>st. frame_loop long_env every_frame False init_state
            (take (length (cap_frames long_env)) (cap_frames long_env)) = (st, None)"
    using fi fps by (rule frame_loop_total) simp_all
  then obtain st where
    run: "frame_loop long_env every_frame False init_state (cap_frames long_env) = (st, None)"
    by auto
  from process_video_finishes [OF opened oo run] obtain w1 where
    "process_video long_env every_frame = (ResultDict (aggregate long_env st None w1), w1)"
    by auto
  then have r: "fst (process_video long_env every_frame) =
      ResultDict (aggregate long_env st None w1)"
    by simp
  have "length (frame_detections st) = 101"
    using loop_results [OF fi run] n by (simp add: every_frame_def)
  then have pf: "processed_frames (aggregate long_env st None w1) = 101"
    by (simp add: aggregate_def Let_def)
  from response_truncation [of long_env every_frame] r
  obtain out' st' where
    run': "frame_loop long_env every_frame out' init_state (cap_frames long_env) = (st', None)"
    and cnt: "processed_frames (aggregate long_env st None w1) = length (frame_detections st')"
    and len: "length (returned_detections (aggregate long_env st None w1)) =
      min (processed_frames (aggregate long_env st None w1)) 100"
    and avg: "average_person_count (aggregate long_env st None w1) =
      average_count (frame_detections st')"
    and strict: "100 < processed_frames (aggregate long_env st None w1) \<longrightarrow>
      strict_prefix (returned_detections (aggregate long_env st None w1)) (frame_detections st')"
    by blast
  from strict pf have "strict_prefix (returned_detections (aggregate long_env st None w1))
      (frame_detections st')"
    by simp
  moreover from len pf have "length (returned_detections (aggregate long_env st None w1)) = 100"
    by simp
  moreover from cnt pf have "length (frame_detections st') = 101"
    by simp
  ultimately show ?thesis
    using r pf run' avg by blast
qed

section \<open>Failing writes and the handles\<close>

lemma loop_step_write_fails_results:
  assumes fi: "1 \<le> frame_interval j"
    and inv: "loop_inv e j True k st"
    and fps: "cap_fps e \<noteq> 0"
    and wr: "write_raises e k = Some x"
  shows "\<exists>st'. loop_step e j True st (cap_frames e ! k) = (st', Some x)
           \<and> out_written st' = out_written st
           \<and> frame_detections st' =
               map (anchor_result e j)
                 (filter (\<lambda>i. i mod nat (frame_interval j) = 0) [1..<Suc (Suc k)])"
proof -
  let ?n = "nat (frame_interval j)"
  have len: "length (out_written st) = k" and fc: "frame_count st = k"
    and fd: "frame_detections st =
          map (anchor_result e j) (filter (\<lambda>i. i mod ?n = 0) [1..<Suc k])"
    using inv by (simp_all add: loop_inv_def)
  have nz: "frame_interval j \<noteq> 0" using fi by simp
  have test: "(int (Suc k) mod frame_interval j = 0) = (Suc k mod ?n = 0)"
    by (rule anchor_test [OF fi])
  have upt: "[1..<Suc (Suc k)] = [1..<Suc k] @ [Suc k]"
    by simp
  show ?thesis
  proof (cases "Suc k mod ?n = 0")
    case True
    then show ?thesis
      unfolding upt using nz fps wr len fc fd test
      by (simp add: loop_step_def Let_def out_write_def anchor_result_def)
  next
    case False
    then show ?thesis
      unfolding upt using nz fps wr len fc fd test
      by (auto simp: loop_step_def Let_def out_write_def split: option.splits)
  qed
qed

lemma frame_loop_write_fails:
  assumes fi: "1 \<le> frame_interval j" and fps: "cap_fps e \<noteq> 0"
    and k: "k < length (cap_frames e)"
    and wr: "write_raises e k = Some x" and before: "\<forall>i<k. write_raises e i = None"
  shows "\<exists>st. frame_loop e j True init_state (cap_frames e) = (st, Some x)
           \<and> out_written st = map (expected_frame e j) [1..<Suc k]
           \<and> length (frame_detections st) = Suc k div nat (frame_interval j)"
proof -
  have n: "0 < nat (frame_interval j)" using fi by simp
  from frame_loop_total [OF fi fps, of True k] before k
  obtain s0 where pre: "frame_loop e j True init_state (take k (cap_frames e)) = (s0, None)"
    by auto
  have inv: "loop_inv e j True k s0"
    using fi k pre by (intro frame_loop_inv) simp_all
  from loop_step_write_fails_results [OF fi inv fps wr]
  obtain s1 where step: "loop_step e j True s0 (cap_frames e ! k) = (s1, Some x)"
    and w: "out_written s1 = out_written s0"
    and fd: "frame_detections s1 =
               map (anchor_result e j)
                 (filter (\<lambda>i. i mod nat (frame_interval j) = 0) [1..<Suc (Suc k)])"
    by blast
  have split: "cap_frames e = take k (cap_frames e) @ cap_frames e ! k # drop (Suc k) (cap_frames e)"
    using k by (simp add: id_take_nth_drop [symmetric])
  have "frame_loop e j True init_state
          (take k (cap_frames e) @ cap_frames e ! k # drop (Suc k) (cap_frames e)) =
        (s1, Some x)"
    unfolding frame_loop_append using pre step by simp
  then have run: "frame_loop e j True init_state (cap_frames e) = (s1, Some x)"
    using split by simp
  have "out_written s1 = map (expected_frame e j) [1..<Suc k]"
    using w inv by (simp add: loop_inv_def)
  moreover have "length (frame_detections s1) = Suc k div nat (frame_interval j)"
    unfolding fd anchors_upto [OF n] by simp
  ultimately show ?thesis
    using run by blast
qed

text \<open>
  Claim C6, as the code has it. Let the writer be open, the frame interval at least 1
  and the frame rate not 0, and let the write of frame \<open>k + 1\<close> be the first one that
  raises. Then the loop stops there, having written \<open>k\<close> frames and collected a frame
  result for every anchor frame up to \<open>k + 1\<close>, and \<^verbatim>\<open>process_video\<close> returns the error
  dictionary of its \<^verbatim>\<open>except\<close> clause, with \<^verbatim>\<open>total_frames\<close> and \<^verbatim>\<open>processed_frames\<close> both
  0: the frame results collected are not aggregated and not returned.
\<close>

theorem write_failure_discards_results:
  assumes "1 \<le> frame_interval j" and "cap_isOpened e"
    and "fst (open_out e j) = Inr (True, op)" and "cap_fps e \<noteq> 0"
    and "k < length (cap_frames e)"
    and "write_raises e k = Some x" and "\<forall>i<k. write_raises e i = None"
  shows "fst (process_video e j) = ErrorDict x 0 0
         \<and> processed_of (fst (process_video e j)) = 0
         \<and> written (snd (process_video e j)) = map (expected_frame e j) [1..<Suc k]
         \<and> (\<exists>st. frame_loop e j True init_state (cap_frames e) = (st, Some x)
               \<and> length (frame_detections st) = Suc k div nat (frame_interval j))"
proof -
  from frame_loop_write_fails [OF assms(1,4,5,6,7)]
  obtain st where run: "frame_loop e j True init_state (cap_frames e) = (st, Some x)"
    and w: "out_written st = map (expected_frame e j) [1..<Suc k]"
    and n: "length (frame_detections st) = Suc k div nat (frame_interval j)"
    by blast
  have "process_video e j =
          (ErrorDict x 0 0, (start_world e)\<lparr>attempts := snd (open_out e j),
                                              written := out_written st\<rparr>)"
  proof (cases rule: process_video_cases [where e = e and j = j])
    case closed
    with assms(2) show ?thesis by simp
  next
    case (no_encoder x' tried)
    with assms(3) show ?thesis by simp
  next
    case (loop_error out' op' tried st' x')
    with assms(3) run show ?thesis by simp
  next
    case (close_error out' op' tried st' w1)
    with assms(3) run show ?thesis by simp
  next
    case (finished out' op' tried st' w1)
    with assms(3) run show ?thesis by simp
  qed
  then have "fst (process_video e j) = ErrorDict x 0 0"
    and "written (snd (process_video e j)) = map (expected_frame e j) [1..<Suc k]"
    using w by simp_all
  with run n show ?thesis
    by (auto simp: processed_of_def)
qed

lemma disk_full_run:
  "process_video disk_full clip_job =
     (ErrorDict (ExternalError ''disk full'') 0 0,
      \<lparr>cap_released = False, out_released = False,
        attempts = [(''mp4v'', ''out.mp4''), (''XVID'', ''out.mp4''), (''MJPG'', ''out.avi'')],
        written =
          [\<lparr>base = vga, rects = [], labels = []\<rparr>,
           \<lparr>base = vga, rects = [(10, 20, 110, 220)], labels = []\<rparr>],
        ffmpeg_runs = [], disk = [''out.avi'' \<mapsto> 1000]\<rparr>)"
  by (simp add: job_defs disk_full_def studio_def clip_job_def only_mjpg_def one_person_def
      vga_def)

theorem write_failure_discards_results_witness:
  "fst (process_video disk_full clip_job) = ErrorDict (ExternalError ''disk full'') 0 0
   \<and> processed_of (fst (process_video disk_full clip_job)) = 0
   \<and> length (written (snd (process_video disk_full clip_job))) = 2
   \<and> (\<exists>st. frame_loop disk_full clip_job True init_state (cap_frames disk_full) =
              (st, Some (ExternalError ''disk full''))
          \<and> length (frame_detections st) = 1)"
proof -
  have fi: "1 \<le> frame_interval clip_job"
    by (simp add: clip_job_def)
  have oo: "fst (open_out disk_full clip_job) = Inr (True, Some ''out.avi'')"
    by (simp add: job_defs disk_full_def studio_def clip_job_def only_mjpg_def)
  have env: "cap_isOpened disk_full" "cap_fps disk_full \<noteq> 0" "2 < length (cap_frames disk_full)"
    "write_raises disk_full 2 = Some (ExternalError ''disk full'')"
    "\<forall>i<2. write_raises disk_full i = None"
    by (simp_all add: disk_full_def studio_def)
  from write_failure_discards_results [OF fi env(1) oo env(2,3,4,5)]
  show ?thesis
    by (simp add: clip_job_def processed_of_def)
qed

text \<open>At the failure one frame result (that of frame 2) had been collected; the result
  returned has no average and counts no processed frame.\<close>

theorem write_failure_partial_results_counterexample:
  "(\<exists>st. frame_loop disk_full clip_job True init_state (cap_frames disk_full) =
            (st, Some (ExternalError ''disk full''))
        \<and> map frame_number (frame_detections st) = [Some 2])
   \<and> fst (process_video disk_full clip_job) = ErrorDict (ExternalError ''disk full'') 0 0
   \<and> processed_of (fst (process_video disk_full clip_job)) \<noteq> 1"
  by (simp add: disk_full_run processed_of_def)
    (simp add: job_defs disk_full_def studio_def clip_job_def only_mjpg_def one_person_def
      vga_def)

text \<open>
  Claim C7 at the failing input. The job whose third write raises ends in the \<^verbatim>\<open>except\<close>
  clause with neither \<^verbatim>\<open>cap.release()\<close> nor \<^verbatim>\<open>out.release()\<close> called, and so does the job
  for which no encoder opens; the job that completes releases both.
\<close>

theorem handles_not_released_on_error:
  "fst (process_video disk_full clip_job) = ErrorDict (ExternalError ''disk full'') 0 0
   \<and> \<not> cap_released (snd (process_video disk_full clip_job))
   \<and> \<not> out_released (snd (process_video disk_full clip_job))
   \<and> fst (process_video no_codec clip_job) = ErrorDict no_encoder_error 0 0
   \<and> \<not> cap_released (snd (process_video no_codec clip_job))
   \<and> cap_released (snd (process_video studio clip_job))
   \<and> out_released (snd (process_video studio clip_job))"
proof -
  have "process_video no_codec clip_job =
      (ErrorDict no_encoder_error 0 0,
       (start_world no_codec)\<lparr>attempts := map (attempt_of ''out.mp4'') fourcc_options\<rparr>)"
    by (simp add: job_defs no_codec_def studio_def clip_job_def no_encoder_error_def
        attempt_of_def)
  then show ?thesis
    by (simp add: disk_full_run studio_world start_world_def)
qed

section \<open>The failure modes of the transcode fallback\<close>






lemma reencode_exited:
  assumes "import_imageio e = None" and "get_ffmpeg_exe e = Inr exe"
    and "fst (subprocess_run e (ffmpeg_cmd exe p (h264_temp_path p))) = Exited rc"
  shows "reencode_to_h264 e p w =
           (let t = h264_temp_path p; w1 = run_ffmpeg e (ffmpeg_cmd exe p t) t w
            in if rc = 0 \<and> (case disk w1 t of None \<Rightarrow> False | Some n \<Rightarrow> 0 < n)
               then (os_replace t p w1, Inr p)
               else (remove_if_exists t w1, Inr p))"
  using assms by (simp add: reencode_to_h264_def reencode_try_def Let_def)





lemma temp_of_out: "h264_temp_path ''out.mp4'' = ''out_h264.mp4''"
  by (simp add: h264_temp_path_def)




section \<open>How often the transcoder runs\<close>

lemma runs_remove_if_exists: "ffmpeg_runs (remove_if_exists t w) = ffmpeg_runs w"
  by (simp add: remove_if_exists_def)

lemma runs_os_replace: "ffmpeg_runs (os_replace a b w) = ffmpeg_runs w"
  by (simp add: os_replace_def)

lemma runs_run_ffmpeg: "ffmpeg_runs (run_ffmpeg e cmd t w) = ffmpeg_runs w @ [cmd]"
  by (simp add: run_ffmpeg_def)

lemma reencode_runs:
  "ffmpeg_runs (fst (reencode_to_h264 e p w)) =
     ffmpeg_runs w @
       (if import_imageio e = None
        then (case get_ffmpeg_exe e of
                Inl x \<Rightarrow> []
              | Inr exe \<Rightarrow> [ffmpeg_cmd exe p (h264_temp_path p)])
        else [])"
proof (cases "import_imageio e = None")
  case False
  then show ?thesis by (auto simp: reencode_to_h264_def)
next
  case True
  show ?thesis
  proof (cases "get_ffmpeg_exe e")
    case (Inl x)
    with True show ?thesis
      by (cases x)
        (simp_all add: reencode_to_h264_def reencode_try_def runs_remove_if_exists)
  next
    case (Inr exe)
    show ?thesis
    proof (cases "fst (subprocess_run e (ffmpeg_cmd exe p (h264_temp_path p)))")
      case (RunRaises x)
      with True Inr show ?thesis
        by (cases x)
          (simp_all add: reencode_to_h264_def reencode_try_def Let_def
            runs_remove_if_exists runs_run_ffmpeg)
    next
      case (Exited rc)
      with True Inr show ?thesis
        by (simp add: reencode_exited Let_def runs_remove_if_exists runs_os_replace
            runs_run_ffmpeg)
    qed
  qed
qed

lemma close_out_runs:
  assumes "ffmpeg_runs w = []" and "disk w = disk_after_release e"
  shows "ffmpeg_runs (fst (close_out e out op w)) = transcode_runs e out op"
  using assms
  by (simp add: close_out_def transcode_runs_def Let_def split_beta reencode_runs
      split: option.splits sum.splits)

lemma transcode_runs_le: "length (transcode_runs e out op) \<le> 1"
  by (simp add: transcode_runs_def split: option.splits sum.splits)

text \<open>The job on the installation whose import raises another exception than
  \<^verbatim>\<open>ImportError\<close>: all frames are written and both handles released, then the
  \<^verbatim>\<open>UnboundLocalError\<close> of line 384 ends the job in the error dictionary, before any run of
  the transcoder.\<close>

lemma bad_install_run:
  "process_video bad_install clip_job =
     (ErrorDict UnboundLocalError 0 0,
      \<lparr>cap_released = True, out_released = True, attempts = [(''mp4v'', ''out.mp4'')],
        written =
          [\<lparr>base = vga, rects = [], labels = []\<rparr>,
           \<lparr>base = vga, rects = [(10, 20, 110, 220)], labels = []\<rparr>,
           \<lparr>base = vga, rects = [(10, 20, 110, 220)], labels = [(9 / 10, 10, 10)]\<rparr>],
        ffmpeg_runs = [], disk = [''out.mp4'' \<mapsto> 1000]\<rparr>)"
  by (simp add: job_defs bad_install_def mp4_env_def studio_def clip_job_def one_person_def
      vga_def)

text \<open>
  Claim C8, as the code has it. The transcoder is run at most once per job. A job that
  returns its full result has run it exactly once when a writer was open, the file at
  the final output path exists, that path ends in \<^verbatim>\<open>.mp4\<close>, \<^verbatim>\<open>imageio_ffmpeg\<close> imports and
  the executable is found, and not at all otherwise; in particular not when the path
  does not end in \<^verbatim>\<open>.mp4\<close>, as after \<^verbatim>\<open>MJPG\<close> was negotiated and \<^verbatim>\<open>.mp4\<close> rewritten to
  \<^verbatim>\<open>.avi\<close>. A job that returns the error dictionary has not run it (the one error raised
  after the loop comes from the import, before any run).
\<close>

theorem transcode_invocations:
  "(\<forall>r. fst (process_video e j) = ResultDict r \<longrightarrow>
      (\<exists>out. fst (open_out e j) = Inr (out, output_video r)
         \<and> ffmpeg_runs (snd (process_video e j)) = transcode_runs e out (output_video r)))
   \<and> (\<forall>x t n. fst (process_video e j) = ErrorDict x t n \<longrightarrow>
         ffmpeg_runs (snd (process_video e j)) = [])
   \<and> length (ffmpeg_runs (snd (process_video e j))) \<le> 1
   \<and> (p \<in> dom (disk_after_release e) \<and> suffix ''.mp4'' p \<and> import_imageio e = None
        \<and> get_ffmpeg_exe e = Inr exe
      \<longrightarrow> transcode_runs e True (Some p) = [ffmpeg_cmd exe p (h264_temp_path p)])
   \<and> (\<not> suffix ''.mp4'' p \<longrightarrow> transcode_runs e out (Some p) = [])"
proof -
  have main: "(\<forall>r. fst (process_video e j) = ResultDict r \<longrightarrow>
      (\<exists>out. fst (open_out e j) = Inr (out, output_video r)
         \<and> ffmpeg_runs (snd (process_video e j)) = transcode_runs e out (output_video r)))
    \<and> (\<forall>x t n. fst (process_video e j) = ErrorDict x t n \<longrightarrow>
         ffmpeg_runs (snd (process_video e j)) = [])
    \<and> length (ffmpeg_runs (snd (process_video e j))) \<le> 1"
  proof (cases rule: process_video_cases [where e = e and j = j])
    case closed
    then show ?thesis by (simp add: start_world_def)
  next
    case (no_encoder x tried)
    then show ?thesis by (simp add: start_world_def)
  next
    case (loop_error out op tried st x)
    then show ?thesis by (simp add: start_world_def)
  next
    case (close_error out op tried st w1)
    let ?w = "(start_world e)\<lparr>attempts := tried, written := out_written st\<rparr>"
    from close_error(4) have w1: "w1 = fst (close_out e out op ?w)"
      by simp
    have "ffmpeg_runs w1 = transcode_runs e out op"
      unfolding w1 by (rule close_out_runs) (simp_all add: start_world_def)
    moreover from close_error(5) have "transcode_runs e out op = []"
      by (auto simp: transcode_runs_def import_escapes_def split: option.splits)
    ultimately show ?thesis
      using close_error by simp
  next
    case (finished out op tried st w1)
    let ?w = "(start_world e)\<lparr>attempts := tried, written := out_written st\<rparr>"
    from finished(4) have w1: "w1 = fst (close_out e out op ?w)"
      by simp
    have runs: "ffmpeg_runs w1 = transcode_runs e out op"
      unfolding w1 by (rule close_out_runs) (simp_all add: start_world_def)
    have ov: "output_video (aggregate e st op w1) = op"
      by (simp add: aggregate_def Let_def)
    from finished runs ov transcode_runs_le [of e out op] show ?thesis
      by simp
  qed
  have one: "transcode_runs e True (Some p) = [ffmpeg_cmd exe p (h264_temp_path p)]"
    if "p \<in> dom (disk_after_release e) \<and> suffix ''.mp4'' p \<and> import_imageio e = None
        \<and> get_ffmpeg_exe e = Inr exe"
    using that by (simp add: transcode_runs_def)
  have none: "transcode_runs e out (Some p) = []" if "\<not> suffix ''.mp4'' p"
    using that by (simp add: transcode_runs_def)
  from main one none show ?thesis by blast
qed

lemma mp4_run:
  "\<exists>r. fst (process_video mp4_env clip_job) = ResultDict r
       \<and> output_video r = Some ''out.mp4'' \<and> output_exists r"
  by (simp add: job_defs mp4_env_def studio_def clip_job_def one_person_def vga_def)

theorem transcode_invocations_witness:
  "ffmpeg_runs (snd (process_video mp4_env clip_job)) =
     [ffmpeg_cmd ''ffmpeg'' ''out.mp4'' ''out_h264.mp4'']
   \<and> (\<exists>r. fst (process_video studio clip_job) = ResultDict r
          \<and> output_video r = Some ''out.avi''
          \<and> ffmpeg_runs (snd (process_video studio clip_job)) = [])
   \<and> ffmpeg_runs (snd (process_video no_codec clip_job)) = []"
proof -
  have oo: "fst (open_out mp4_env clip_job) = Inr (True, Some ''out.mp4'')"
    by (simp add: job_defs mp4_env_def studio_def clip_job_def)
  have env: "''out.mp4'' \<in> dom (disk_after_release mp4_env) \<and> suffix ''.mp4'' ''out.mp4''
      \<and> import_imageio mp4_env = None \<and> get_ffmpeg_exe mp4_env = Inr ''ffmpeg''"
    by (simp add: mp4_env_def studio_def suffix_to_prefix)
  note t = transcode_invocations [of mp4_env clip_job "''out.mp4''" "''ffmpeg''" True]
  from t mp4_run oo
  have "ffmpeg_runs (snd (process_video mp4_env clip_job)) =
      transcode_runs mp4_env True (Some ''out.mp4'')"
    by auto
  with t env have first: "ffmpeg_runs (snd (process_video mp4_env clip_job)) =
      [ffmpeg_cmd ''ffmpeg'' ''out.mp4'' ''out_h264.mp4'']"
    by (simp add: temp_of_out)
  have oo2: "fst (open_out studio clip_job) = Inr (True, Some ''out.avi'')"
    by (simp add: job_defs studio_def clip_job_def only_mjpg_def)
  have avi: "\<not> suffix ''.mp4'' ''out.avi''"
    by (simp add: suffix_to_prefix)
  note t2 = transcode_invocations [of studio clip_job "''out.avi''" "''ffmpeg''" True]
  from studio_result obtain r where r: "fst (process_video studio clip_job) = ResultDict r"
    and ov: "output_video r = Some ''out.avi''"
    by blast
  from t2 r ov oo2 have "ffmpeg_runs (snd (process_video studio clip_job)) =
      transcode_runs studio True (Some ''out.avi'')"
    by auto
  with t2 avi have second: "ffmpeg_runs (snd (process_video studio clip_job)) = []"
    by simp
  have err: "fst (process_video no_codec clip_job) = ErrorDict no_encoder_error 0 0"
    by (simp add: job_defs no_codec_def studio_def clip_job_def no_encoder_error_def)
  from transcode_invocations [of no_codec clip_job "''out.mp4''" "''ffmpeg''" True] err
  have third: "ffmpeg_runs (snd (process_video no_codec clip_job)) = []"
    by blast
  from first second third r ov show ?thesis by blast
qed

text \<open>The job for which \<^verbatim>\<open>MJPG\<close> was negotiated: the writer was open, all three frames
  were written and \<^verbatim>\<open>out.avi\<close> exists, and the transcoder was not run.\<close>

theorem transcode_invocations_counterexample:
  "(\<exists>r. fst (process_video studio clip_job) = ResultDict r \<and> output_exists r
        \<and> output_video r = Some ''out.avi'')
   \<and> out_released (snd (process_video studio clip_job))
   \<and> length (written (snd (process_video studio clip_job))) = length (cap_frames studio)
   \<and> ffmpeg_runs (snd (process_video studio clip_job)) = []"
proof -
  have len: "length (cap_frames studio) = 3"
    by (simp add: studio_def)
  from studio_result have "\<exists>r. fst (process_video studio clip_job) = ResultDict r
      \<and> output_exists r \<and> output_video r = Some ''out.avi''"
    by blast
  then show ?thesis
    by (simp add: studio_world len)
qed

end
